theory Spec2Isabelle
  imports Main "HOL-Library.Sublist"
begin

section \<open>Data model\<close>

text \<open>
  Field elements (package felt, not part of the excerpt) are modelled as natural numbers.
  The trie only tests them for zero, compares them and feeds them to the hash function.
\<close>

type_synonym Felt = nat

text \<open>
  Modelled from the spec: the bit-key utility (type Key, file key.go) is missing.
  The spec describes a key as an immutable bit-string with a length, a bit access, an
  equality, a truncation and a distinguished NIL value. A key is the list of its bits,
  most significant bit first; NIL is the key of length zero.
\<close>

type_synonym Key = "bool list"

definition NilKey :: Key where
  "NilKey = []"

definition Len :: "Key \<Rightarrow> nat" where
  "Len k = length k"

text \<open>
  The source computes bit positions in uint8: a difference below zero wraps around.
\<close>

definition sub8 :: "nat \<Rightarrow> nat \<Rightarrow> nat" where
  "sub8 a b = (a mod 256 + 256 - b mod 256) mod 256"

text \<open>
  Modelled from the spec: Key.IsBitSet is missing. The position counts from the least
  significant (last) bit, as the callers in trie.go use it
  (\<open>key.IsBitSet(key.Len() - cur.Len() - 1)\<close> selects the first bit below \<open>cur\<close>).
  A position beyond the length reads an unused, cleared bit.
\<close>

definition IsBitSet :: "Key \<Rightarrow> nat \<Rightarrow> bool" where
  "IsBitSet k pos = (pos < length k \<and> k ! (length k - 1 - pos))"

text \<open>
  Modelled from the spec: Key.Truncate is missing. \<open>path\<close> in trie.go documents it: the
  result is the suffix of the key of the given length (the parent's bits and one more
  leading bit are dropped). A length above the current one leaves the bits and extends the
  key with cleared leading bits.
\<close>

definition Truncate :: "Key \<Rightarrow> nat \<Rightarrow> Key" where
  "Truncate k n =
     (if n \<le> length k then drop (length k - n) k else replicate (n - length k) False @ k)"

text \<open>Modelled from the spec: Key.Felt is missing; the bits of the key read as a number.\<close>

definition Key_Felt :: "Key \<Rightarrow> Felt" where
  "Key_Felt k = foldl (\<lambda>acc b. 2 * acc + (if b then 1 else 0)) 0 k"

text \<open>
  Modelled from the spec: FeltToKey is missing. It builds the key of the given length
  from a field element: the big-endian bits of the element. (For an element above
  \<open>2 ^ height - 1\<close> the bits above the length are not represented; \<open>Put\<close> rejects
  such keys before it builds the key.)
\<close>

definition FeltToKey :: "nat \<Rightarrow> Felt \<Rightarrow> Key" where
  "FeltToKey h k = map (\<lambda>i. odd (k div 2 ^ (h - 1 - i))) [0..<h]"

text \<open>
  Modelled from the spec: isSubset is missing; true iff the shorter key (the ancestor) is
  a prefix of the longer key (the descendant).
\<close>

definition isSubset :: "Key \<Rightarrow> Key \<Rightarrow> bool" where
  "isSubset longerKey shorterKey = prefix shorterKey longerKey"

text \<open>
  Modelled from the spec: findCommonKey is missing; it yields the longest shared prefix
  of two keys. Its second result is discarded by every caller in trie.go and is left out.
\<close>

definition findCommonKey :: "Key \<Rightarrow> Key \<Rightarrow> Key" where
  "findCommonKey longerKey shorterKey = longest_common_prefix longerKey shorterKey"

text \<open>
  Node (file node.go is missing; the fields are those trie.go reads and writes). A child
  that is absent is the NIL key: the storage hands out nodes whose child pointers are
  never Go-nil, and a Go-nil child of a node being stored is stored as NIL.
\<close>

record Node =
  Value :: Felt
  Left :: Key
  Right :: Key
  LeftHash :: "Felt option"
  RightHash :: "Felt option"

text \<open>
  Modelled from the spec: Node.Hash is missing. The spec (4.2): the hash handed to the
  parent is \<open>hash(value, pathBitsAsField)\<close> iff the relative path has length above zero,
  otherwise the node's value.
\<close>

definition Node_Hash :: "Node \<Rightarrow> Key \<Rightarrow> (Felt \<Rightarrow> Felt \<Rightarrow> Felt) \<Rightarrow> Felt" where
  "Node_Hash n p hashFn = (if Len p = 0 then Value n else hashFn (Value n) (Key_Felt p))"

datatype error =
    KeyOutOfRange Felt nat
  | ErrKeyNotFound
  | StorageError nat
  | InvalidHeight nat
  | Panic

text \<open>
  Modelled from the spec: the Storage (file storage.go) is missing. The spec's contract:
  a mapping from keys to nodes and one root key slot, with get, put and delete on both;
  get answers a node, key-not-found or another error, the others answer ok or an error.
  The model keeps the mapping, the slot, the list of the operations attempted so far (so
  that reads and writes can be told apart) and a failure oracle of the backend: given the
  operations so far and the operation attempted it says whether the backend fails, and
  with which error. A failed operation changes nothing but the list.
\<close>

datatype sop =
    OpGet Key
  | OpPut Key Node
  | OpDelete Key
  | OpRootKey
  | OpPutRootKey Key
  | OpDeleteRootKey

record Storage =
  nodes :: "Key \<rightharpoonup> Node"
  root_slot :: "Key option"
  trace :: "sop list"
  fault :: "sop list \<Rightarrow> sop \<Rightarrow> nat option"

definition storage_Get :: "Storage \<Rightarrow> Key \<Rightarrow> (error + Node) \<times> Storage" where
  "storage_Get s k =
     (let s' = s\<lparr>trace := trace s @ [OpGet k]\<rparr> in
      case fault s (trace s) (OpGet k) of
        Some e \<Rightarrow> (Inl (StorageError e), s')
      | None \<Rightarrow> (case nodes s k of None \<Rightarrow> (Inl ErrKeyNotFound, s') | Some n \<Rightarrow> (Inr n, s')))"

definition storage_Put :: "Storage \<Rightarrow> Key \<Rightarrow> Node \<Rightarrow> error option \<times> Storage" where
  "storage_Put s k n =
     (let s' = s\<lparr>trace := trace s @ [OpPut k n]\<rparr> in
      case fault s (trace s) (OpPut k n) of
        Some e \<Rightarrow> (Some (StorageError e), s')
      | None \<Rightarrow> (None, s'\<lparr>nodes := (nodes s)(k \<mapsto> n)\<rparr>))"

definition storage_Delete :: "Storage \<Rightarrow> Key \<Rightarrow> error option \<times> Storage" where
  "storage_Delete s k =
     (let s' = s\<lparr>trace := trace s @ [OpDelete k]\<rparr> in
      case fault s (trace s) (OpDelete k) of
        Some e \<Rightarrow> (Some (StorageError e), s')
      | None \<Rightarrow> (None, s'\<lparr>nodes := (nodes s)(k := None)\<rparr>))"

definition storage_RootKey :: "Storage \<Rightarrow> (error + Key) \<times> Storage" where
  "storage_RootKey s =
     (let s' = s\<lparr>trace := trace s @ [OpRootKey]\<rparr> in
      case fault s (trace s) OpRootKey of
        Some e \<Rightarrow> (Inl (StorageError e), s')
      | None \<Rightarrow> (case root_slot s of None \<Rightarrow> (Inl ErrKeyNotFound, s') | Some k \<Rightarrow> (Inr k, s')))"

definition storage_PutRootKey :: "Storage \<Rightarrow> Key \<Rightarrow> error option \<times> Storage" where
  "storage_PutRootKey s k =
     (let s' = s\<lparr>trace := trace s @ [OpPutRootKey k]\<rparr> in
      case fault s (trace s) (OpPutRootKey k) of
        Some e \<Rightarrow> (Some (StorageError e), s')
      | None \<Rightarrow> (None, s'\<lparr>root_slot := Some k\<rparr>))"

definition storage_DeleteRootKey :: "Storage \<Rightarrow> error option \<times> Storage" where
  "storage_DeleteRootKey s =
     (let s' = s\<lparr>trace := trace s @ [OpDeleteRootKey]\<rparr> in
      case fault s (trace s) OpDeleteRootKey of
        Some e \<Rightarrow> (Some (StorageError e), s')
      | None \<Rightarrow> (None, s'\<lparr>root_slot := None\<rparr>))"

text \<open>
  The synced view wraps the same backend for use by several tasks; the contents are the
  same, and writes through the view are writes to the storage.
\<close>

definition SyncedStorage :: "Storage \<Rightarrow> Storage" where
  "SyncedStorage s = s"

text \<open>The trie (struct Trie). The Go pointer \<open>rootKey\<close> may be nil: an option.\<close>

record Trie =
  height :: nat
  rootKey :: "Key option"
  maxKey :: Felt
  storage :: Storage
  hash :: "Felt \<Rightarrow> Felt \<Rightarrow> Felt"
  dirtyNodes :: "Key list"
  rootKeyIsDirty :: bool

text \<open>
  StorageNode: a node with its storage key. (An entry whose Go key pointer is nil never
  equals a key of the descent and is never selected; the model's entries have a key.)
\<close>

record StorageNode =
  sn_key :: Key
  sn_node :: Node

definition felt_Bits :: nat where
  "felt_Bits = 252"

section \<open>Construction\<close>

definition newTrie ::
  "Storage \<Rightarrow> nat \<Rightarrow> (Felt \<Rightarrow> Felt \<Rightarrow> Felt) \<Rightarrow> (error + Trie) \<times> Storage" where
  "newTrie st h hashFn =
     (if h > felt_Bits then (Inl (InvalidHeight h), st)
      else
        let mk = 2 ^ h - 1 in
        case storage_RootKey st of
          (Inl e, st') \<Rightarrow>
            if e \<noteq> ErrKeyNotFound then (Inl e, st')
            else (Inr \<lparr>height = h, rootKey = None, maxKey = mk, storage = st',
                       hash = hashFn, dirtyNodes = [], rootKeyIsDirty = False\<rparr>, st')
        | (Inr rk, st') \<Rightarrow>
            (Inr \<lparr>height = h, rootKey = Some rk, maxKey = mk, storage = st',
                  hash = hashFn, dirtyNodes = [], rootKeyIsDirty = False\<rparr>, st'))"

definition path :: "Key \<Rightarrow> Key option \<Rightarrow> Key" where
  "path key parentKey =
     (case parentKey of
        None \<Rightarrow> key
      | Some p \<Rightarrow> Truncate key (sub8 (sub8 (Len key) (Len p)) 1))"

section \<open>Read path\<close>

definition Get :: "Trie \<Rightarrow> Felt \<Rightarrow> (error + Felt) \<times> Trie" where
  "Get t key =
     (let storageKey = FeltToKey (height t) key in
      case storage_Get (storage t) storageKey of
        (Inl e, s') \<Rightarrow>
          if e = ErrKeyNotFound then (Inr 0, t\<lparr>storage := s'\<rparr>)
          else (Inl e, t\<lparr>storage := s'\<rparr>)
      | (Inr v, s') \<Rightarrow> (Inr (Value v), t\<lparr>storage := s'\<rparr>))"

definition GetNodeFromKey :: "Trie \<Rightarrow> Key \<Rightarrow> (error + Node) \<times> Trie" where
  "GetNodeFromKey t key =
     (case storage_Get (storage t) key of (r, s') \<Rightarrow> (r, t\<lparr>storage := s'\<rparr>))"

text \<open>
  The descent of \<open>nodesFromRoot\<close>: the loop follows child keys read from the storage
  and need not end on a storage whose links form a cycle, so it is a partial function:
  \<open>None\<close> is "does not return".
\<close>

partial_function (option) nodesFromRoot_loop ::
  "Key \<Rightarrow> Key option \<Rightarrow> StorageNode list \<Rightarrow> Trie \<Rightarrow> ((error + StorageNode list) \<times> Trie) option"
where
  "nodesFromRoot_loop key cur nds t =
     (case cur of
        None \<Rightarrow> Some (Inr nds, t)
      | Some c \<Rightarrow>
          if length nds > 0 \<and> Len c = 0 then Some (Inr nds, t)
          else
            (case storage_Get (storage t) c of
               (Inl e, s') \<Rightarrow> Some (Inl e, t\<lparr>storage := s'\<rparr>)
             | (Inr node, s') \<Rightarrow>
                 let nds' = nds @ [\<lparr>sn_key = c, sn_node = node\<rparr>];
                     t' = t\<lparr>storage := s'\<rparr>
                 in if Len c \<ge> Len key \<or> \<not> isSubset key c then Some (Inr nds', t')
                    else if IsBitSet key (sub8 (sub8 (Len key) (Len c)) 1)
                      then nodesFromRoot_loop key (Some (Right node)) nds' t'
                      else nodesFromRoot_loop key (Some (Left node)) nds' t'))"

definition nodesFromRoot ::
  "Trie \<Rightarrow> Key \<Rightarrow> ((error + StorageNode list) \<times> Trie) option" where
  "nodesFromRoot t key = nodesFromRoot_loop key (rootKey t) [] t"

section \<open>Write path\<close>

text \<open>
  The Go functions of the write path return a pair (old value, error). The model's result
  is \<open>Inl e\<close> for (nil, e), \<open>Inr (Some v)\<close> for (v, nil) and \<open>Inr None\<close> for (nil, nil).
\<close>

definition updateLeaf ::
  "Trie \<Rightarrow> Key \<Rightarrow> Node \<Rightarrow> Felt \<Rightarrow> (error + Felt option) \<times> Trie" where
  "updateLeaf t nodeKey node val =
     (if val \<noteq> 0 then
        (case storage_Get (storage t) nodeKey of
           (Inr existingLeaf, s1) \<Rightarrow>
             let old = Value existingLeaf in
             (case storage_Put s1 nodeKey node of
                (Some e, s2) \<Rightarrow> (Inl e, t\<lparr>storage := s2\<rparr>)
              | (None, s2) \<Rightarrow>
                  (Inr (Some old), t\<lparr>storage := s2, dirtyNodes := dirtyNodes t @ [nodeKey]\<rparr>))
         | (Inl e, s1) \<Rightarrow>
             if e \<noteq> ErrKeyNotFound then (Inl e, t\<lparr>storage := s1\<rparr>)
             else (Inr None, t\<lparr>storage := s1\<rparr>))
      else (Inr None, t))"

definition setRootKey :: "Trie \<Rightarrow> Key option \<Rightarrow> Trie" where
  "setRootKey t newRootKey = t\<lparr>rootKey := newRootKey, rootKeyIsDirty := True\<rparr>"

definition handleEmptyTrie ::
  "Trie \<Rightarrow> Felt \<Rightarrow> Key \<Rightarrow> Node \<Rightarrow> Felt \<Rightarrow> (error + Felt option) \<times> Trie" where
  "handleEmptyTrie t old nodeKey node val =
     (if val = 0 then (Inr None, t)
      else
        (case storage_Put (storage t) nodeKey node of
           (Some e, s1) \<Rightarrow> (Inl e, t\<lparr>storage := s1\<rparr>)
         | (None, s1) \<Rightarrow> (Inr (Some old), setRootKey (t\<lparr>storage := s1\<rparr>) (Some nodeKey))))"

text \<open>
  \<open>deleteLast\<close> indexes the list from its end; on an empty list the Go code panics
  (its only caller passes a non-empty list).
\<close>

definition deleteLast :: "Trie \<Rightarrow> StorageNode list \<Rightarrow> error option \<times> Trie" where
  "deleteLast t nds =
     (if nds = [] then (Some Panic, t)
      else
        let lst = nds ! (length nds - 1) in
        case storage_Delete (storage t) (sn_key lst) of
          (Some e, s1) \<Rightarrow> (Some e, t\<lparr>storage := s1\<rparr>)
        | (None, s1) \<Rightarrow>
            if length nds = 1 then (None, setRootKey (t\<lparr>storage := s1\<rparr>) None)
            else
              let parent = nds ! (length nds - 2) in
              case storage_Delete s1 (sn_key parent) of
                (Some e, s2) \<Rightarrow> (Some e, t\<lparr>storage := s2\<rparr>)
              | (None, s2) \<Rightarrow>
                  let siblingKey =
                        (if Left (sn_node parent) = sn_key lst then Right (sn_node parent)
                         else Left (sn_node parent))
                  in
                  if length nds = 2
                  then (None, setRootKey (t\<lparr>storage := s2\<rparr>) (Some siblingKey))
                  else
                    let grandParent = nds ! (length nds - 3);
                        gnode =
                          (if Left (sn_node grandParent) = sn_key parent
                           then (sn_node grandParent)\<lparr>Left := siblingKey\<rparr>
                           else (sn_node grandParent)\<lparr>Right := siblingKey\<rparr>)
                    in
                    case storage_Put s2 (sn_key grandParent) gnode of
                      (Some e, s3) \<Rightarrow> (Some e, t\<lparr>storage := s3\<rparr>)
                    | (None, s3) \<Rightarrow>
                        (None, t\<lparr>storage := s3, dirtyNodes := dirtyNodes t @ [siblingKey]\<rparr>))"

definition deleteExistingKey ::
  "Trie \<Rightarrow> StorageNode \<Rightarrow> Key \<Rightarrow> StorageNode list \<Rightarrow> (error + Felt option) \<times> Trie" where
  "deleteExistingKey t sibling nodeKey nds =
     (if nodeKey = sn_key sibling then
        let old = Value (sn_node sibling) in
        (case deleteLast t nds of
           (Some e, t') \<Rightarrow> (Inl e, t')
         | (None, t') \<Rightarrow> (Inr (Some old), t'))
      else (Inr None, t))"

definition replaceLinkWithNewParent :: "Key \<Rightarrow> Key \<Rightarrow> StorageNode \<Rightarrow> StorageNode" where
  "replaceLinkWithNewParent key commonKey siblingParent =
     (if Left (sn_node siblingParent) = key
      then siblingParent\<lparr>sn_node := (sn_node siblingParent)\<lparr>Left := commonKey\<rparr>\<rparr>
      else siblingParent\<lparr>sn_node := (sn_node siblingParent)\<lparr>Right := commonKey\<rparr>\<rparr>)"

definition emptyNode :: Node where
  "emptyNode = \<lparr>Value = 0, Left = NilKey, Right = NilKey, LeftHash = None, RightHash = None\<rparr>"

definition insertOrUpdateValue ::
  "Trie \<Rightarrow> Key \<Rightarrow> Node \<Rightarrow> StorageNode list \<Rightarrow> StorageNode \<Rightarrow> bool \<Rightarrow> error option \<times> Trie" where
  "insertOrUpdateValue t nodeKey node nds sibling siblingIsParentProof =
     (let commonKey = findCommonKey nodeKey (sn_key sibling);
          putLeaf = (\<lambda>t'. case storage_Put (storage t') nodeKey node of
                             (r, s') \<Rightarrow> (r, t'\<lparr>storage := s'\<rparr>))
      in
      if siblingIsParentProof then
        (case GetNodeFromKey t commonKey of
           (Inl e, t1) \<Rightarrow> (Some e, t1)
         | (Inr newParent0, t1) \<Rightarrow>
             let newParent =
                   (if IsBitSet nodeKey (sub8 (sub8 (Len nodeKey) (Len commonKey)) 1)
                    then newParent0\<lparr>Right := nodeKey,
                                    RightHash := Some (Node_Hash node nodeKey (hash t))\<rparr>
                    else newParent0\<lparr>Left := nodeKey,
                                    LeftHash := Some (Node_Hash node nodeKey (hash t))\<rparr>)
             in
             (case storage_Put (storage t1) commonKey newParent of
                (Some e, s2) \<Rightarrow> (Some e, t1\<lparr>storage := s2\<rparr>)
              | (None, s2) \<Rightarrow>
                  putLeaf (t1\<lparr>storage := s2, dirtyNodes := dirtyNodes t1 @ [commonKey]\<rparr>)))
      else
        let (newLeft, newRight, leftChild, rightChild) =
              (if IsBitSet nodeKey (sub8 (sub8 (Len nodeKey) (Len commonKey)) 1)
               then (sn_key sibling, nodeKey, sn_node sibling, node)
               else (nodeKey, sn_key sibling, node, sn_node sibling));
            leftPath = path newLeft (Some commonKey);
            rightPath = path newRight (Some commonKey);
            newParent = emptyNode\<lparr>Left := newLeft, Right := newRight,
                          Value := hash t (Node_Hash leftChild leftPath (hash t))
                                          (Node_Hash rightChild rightPath (hash t))\<rparr>
        in
        (case storage_Put (storage t) commonKey newParent of
           (Some e, s1) \<Rightarrow> (Some e, t\<lparr>storage := s1\<rparr>)
         | (None, s1) \<Rightarrow>
             if length nds > 1 then
               let siblingParent =
                     replaceLinkWithNewParent (sn_key sibling) commonKey (nds ! (length nds - 2))
               in
               (case storage_Put s1 (sn_key siblingParent) (sn_node siblingParent) of
                  (Some e, s2) \<Rightarrow> (Some e, t\<lparr>storage := s2\<rparr>)
                | (None, s2) \<Rightarrow>
                    putLeaf (t\<lparr>storage := s2, dirtyNodes := dirtyNodes t @ [commonKey]\<rparr>))
             else putLeaf (setRootKey (t\<lparr>storage := s1\<rparr>) (Some commonKey))))"

text \<open>
  \<open>Put\<close>. The result is \<open>None\<close> when the descent does not return. The deferred release
  of the nodes to the node pool has no effect on the values and is left out.
\<close>

definition leafNode :: "Felt \<Rightarrow> Node" where
  "leafNode val = \<lparr>Value = val, Left = NilKey, Right = NilKey, LeftHash = None, RightHash = None\<rparr>"

definition Put :: "Trie \<Rightarrow> Felt \<Rightarrow> Felt \<Rightarrow> ((error + Felt option) \<times> Trie) option" where
  "Put t key val =
     (if key > maxKey t then Some (Inl (KeyOutOfRange key (height t)), t)
      else
        let old = 0;
            nodeKey = FeltToKey (height t) key;
            node = leafNode val
        in
        case updateLeaf t nodeKey node val of
          (Inl e, t1) \<Rightarrow> Some (Inl e, t1)
        | (Inr (Some oldValue), t1) \<Rightarrow> Some (Inr (Some oldValue), t1)
        | (Inr None, t1) \<Rightarrow>
            Option.bind (nodesFromRoot t1 nodeKey) (\<lambda>(r, t2).
              case r of
                Inl e \<Rightarrow> Some (Inl e, t2)
              | Inr nds \<Rightarrow>
                  if length nds = 0 then Some (handleEmptyTrie t2 old nodeKey node val)
                  else
                    let sibling = nds ! (length nds - 1) in
                    (case deleteExistingKey t2 sibling nodeKey nds of
                       (Inl e, t3) \<Rightarrow> Some (Inl e, t3)
                     | (Inr (Some oldValue), t3) \<Rightarrow> Some (Inr (Some oldValue), t3)
                     | (Inr None, t3) \<Rightarrow>
                         if val = 0 then Some (Inr None, t3)
                         else
                           (case insertOrUpdateValue t3 nodeKey node nds sibling False of
                              (Some e, t4) \<Rightarrow> Some (Inl e, t4)
                            | (None, t4) \<Rightarrow> Some (Inr (Some old), t4)))))"

definition PutWithProof ::
  "Trie \<Rightarrow> Felt \<Rightarrow> Felt \<Rightarrow> StorageNode list \<Rightarrow> ((error + Felt option) \<times> Trie) option" where
  "PutWithProof t key val proof =
     (if key > maxKey t then Some (Inl (KeyOutOfRange key (height t)), t)
      else
        let old = 0;
            nodeKey = FeltToKey (height t) key;
            node = leafNode val
        in
        case updateLeaf t nodeKey node val of
          (Inl e, t1) \<Rightarrow> Some (Inl e, t1)
        | (Inr (Some oldValue), t1) \<Rightarrow> Some (Inr (Some oldValue), t1)
        | (Inr None, t1) \<Rightarrow>
            Option.bind (nodesFromRoot t1 nodeKey) (\<lambda>(r, t2).
              case r of
                Inl e \<Rightarrow> Some (Inl e, t2)
              | Inr nds \<Rightarrow>
                  if length nds = 0 then Some (handleEmptyTrie t2 old nodeKey node val)
                  else
                    let sibling = nds ! (length nds - 1) in
                    (case deleteExistingKey t2 sibling nodeKey nds of
                       (Inl e, t3) \<Rightarrow> Some (Inl e, t3)
                     | (Inr (Some oldValue), t3) \<Rightarrow> Some (Inr (Some oldValue), t3)
                     | (Inr None, t3) \<Rightarrow>
                         if val = 0 then Some (Inr None, t3)
                         else
                           let (sibling', parentIsProof) =
                                 (case find (\<lambda>proofNode. sn_key proofNode = sn_key sibling) proof of
                                    Some proofNode \<Rightarrow> (proofNode, True)
                                  | None \<Rightarrow> (sibling, False))
                           in
                           (case insertOrUpdateValue t3 nodeKey node nds sibling' parentIsProof of
                              (Some e, t4) \<Rightarrow> Some (Inl e, t4)
                            | (None, t4) \<Rightarrow> Some (Inr (Some old), t4)))))"


section \<open>Commitment pass\<close>

text \<open>The loop over the dirty list at the head of \<open>updateValueIfDirty\<close>.\<close>

fun shouldUpdate_loop :: "Key list \<Rightarrow> Key \<Rightarrow> bool" where
  "shouldUpdate_loop [] key = False"
| "shouldUpdate_loop (dirtyNode # rest) key =
     (if Len key < Len dirtyNode
      then (if isSubset dirtyNode key then True else shouldUpdate_loop rest key)
      else shouldUpdate_loop rest key)"

text \<open>
  \<open>updateValueIfDirty\<close> and the two child-update routines call each other. The routines
  take the recursive call as a parameter \<open>upd\<close>. A child that is a proof child is not
  visited and its node stays nil (\<open>None\<close>).
\<close>

type_synonym upd_fn = "Trie \<Rightarrow> Key \<Rightarrow> ((error + Node) \<times> Trie) option"

definition updateChild :: "upd_fn \<Rightarrow> Trie \<Rightarrow> Key \<Rightarrow> bool \<Rightarrow> ((error + Node option) \<times> Trie) option" where
  "updateChild upd t childKey isProof =
     (if \<not> isProof
      then Option.bind (upd t childKey) (\<lambda>(r, t1). Some (map_sum id Some r, t1))
      else Some (Inr None, t))"

definition updateChildTriesSerially ::
  "upd_fn \<Rightarrow> Trie \<Rightarrow> Node \<Rightarrow> bool \<Rightarrow> bool \<Rightarrow> ((error + Node option \<times> Node option) \<times> Trie) option"
where
  "updateChildTriesSerially upd t root leftIsProof rightIsProof =
     Option.bind (updateChild upd t (Left root) leftIsProof) (\<lambda>(l, t1).
       case l of
         Inl e \<Rightarrow> Some (Inl e, t1)
       | Inr leftChild \<Rightarrow>
           Option.bind (updateChild upd t1 (Right root) rightIsProof) (\<lambda>(r, t2).
             case r of
               Inl e \<Rightarrow> Some (Inl e, t2)
             | Inr rightChild \<Rightarrow> Some (Inr (leftChild, rightChild), t2)))"

text \<open>
  The concurrent routine starts the left child on a task of its own, runs the right child
  itself and waits for both; then it reports the left error first. The model runs the two
  one after the other (the left child, then the right child): it fixes this one schedule
  and does not model the interleaving of the two tasks.
\<close>

definition updateChildTriesConcurrently ::
  "upd_fn \<Rightarrow> Trie \<Rightarrow> Node \<Rightarrow> bool \<Rightarrow> bool \<Rightarrow> ((error + Node option \<times> Node option) \<times> Trie) option"
where
  "updateChildTriesConcurrently upd t root leftIsProof rightIsProof =
     Option.bind (updateChild upd t (Left root) leftIsProof) (\<lambda>(l, t1).
       Option.bind (updateChild upd t1 (Right root) rightIsProof) (\<lambda>(r, t2).
         case l of
           Inl lErr \<Rightarrow> Some (Inl lErr, t2)
         | Inr leftChild \<Rightarrow>
             (case r of
                Inl rErr \<Rightarrow> Some (Inl rErr, t2)
              | Inr rightChild \<Rightarrow> Some (Inr (leftChild, rightChild), t2))))"

lemma updateChild_mono [partial_function_mono]:
  assumes "\<And>t k. mono_option (\<lambda>f. U f t k)"
  shows "mono_option (\<lambda>f. updateChild (U f) t k p)"
  unfolding updateChild_def by (intro partial_function_mono assms)

lemma updateChildTriesSerially_mono [partial_function_mono]:
  assumes U: "\<And>t k. mono_option (\<lambda>f. U f t k)"
  shows "mono_option (\<lambda>f. updateChildTriesSerially (U f) t root lp rp)"
  unfolding updateChildTriesSerially_def
proof (rule bind_mono)
  show "mono_option (\<lambda>f. updateChild (U f) t (Left root) lp)"
    by (rule updateChild_mono [OF U])
next
  fix y :: "(error + Node option) \<times> Trie"
  obtain l t1 where y: "y = (l, t1)" by (cases y)
  show "mono_option (\<lambda>f. case y of (l, t1) \<Rightarrow>
          (case l of
             Inl e \<Rightarrow> Some (Inl e, t1)
           | Inr leftChild \<Rightarrow>
               Option.bind (updateChild (U f) t1 (Right root) rp) (\<lambda>(r, t2).
                 case r of
                   Inl e \<Rightarrow> Some (Inl e, t2)
                 | Inr rightChild \<Rightarrow> Some (Inr (leftChild, rightChild), t2))))"
    unfolding y by (cases l; simp; intro partial_function_mono updateChild_mono U)
qed

lemma updateChildTriesConcurrently_mono [partial_function_mono]:
  assumes U: "\<And>t k. mono_option (\<lambda>f. U f t k)"
  shows "mono_option (\<lambda>f. updateChildTriesConcurrently (U f) t root lp rp)"
  unfolding updateChildTriesConcurrently_def
proof (rule bind_mono)
  show "mono_option (\<lambda>f. updateChild (U f) t (Left root) lp)"
    by (rule updateChild_mono [OF U])
next
  fix y :: "(error + Node option) \<times> Trie"
  obtain l t1 where y: "y = (l, t1)" by (cases y)
  show "mono_option (\<lambda>f. case y of (l, t1) \<Rightarrow>
          Option.bind (updateChild (U f) t1 (Right root) rp) (\<lambda>(r, t2).
            case l of
              Inl lErr \<Rightarrow> Some (Inl lErr, t2)
            | Inr leftChild \<Rightarrow>
                (case r of
                   Inl rErr \<Rightarrow> Some (Inl rErr, t2)
                 | Inr rightChild \<Rightarrow> Some (Inr (leftChild, rightChild), t2))))"
    unfolding y by (simp, intro partial_function_mono updateChild_mono U)
qed

definition concurrencyMaxDepth :: nat where
  "concurrencyMaxDepth = 8"

text \<open>
  \<open>updateValueIfDirty\<close>. The recursion follows the child keys stored in the nodes and need
  not end on a storage whose links form a cycle: a partial function again. Hashing a nil
  child hash (a NIL child without a stored hash) is a nil dereference in Go: \<open>Panic\<close>.
\<close>

partial_function (option) updateValueIfDirty :: "Trie \<Rightarrow> Key \<Rightarrow> ((error + Node) \<times> Trie) option"
where
  "updateValueIfDirty t key =
     (case storage_Get (storage t) key of
        (Inl e, s1) \<Rightarrow> Some (Inl e, t\<lparr>storage := s1\<rparr>)
      | (Inr node, s1) \<Rightarrow>
          let t1 = t\<lparr>storage := s1\<rparr> in
          if Len key = height t then Some (Inr node, t1)
          else
            let shouldUpdate =
                  (if Left node = NilKey \<and> Right node = NilKey then False
                   else if Left node = NilKey \<or> Right node = NilKey then True
                   else shouldUpdate_loop (dirtyNodes t) key)
            in
            if \<not> shouldUpdate then Some (Inr node, t1)
            else
              let leftIsProof = (Left node = NilKey);
                  rightIsProof = (Right node = NilKey)
              in
              Option.bind
                (if Len key \<le> concurrencyMaxDepth
                 then updateChildTriesConcurrently updateValueIfDirty t1 node leftIsProof rightIsProof
                 else updateChildTriesSerially updateValueIfDirty t1 node leftIsProof rightIsProof)
                (\<lambda>(r, t2).
                   case r of
                     Inl e \<Rightarrow> Some (Inl e, t2)
                   | Inr (leftChild, rightChild) \<Rightarrow>
                       let leftHash =
                             (if leftIsProof then LeftHash node
                              else map_option
                                     (\<lambda>c. Node_Hash c (path (Left node) (Some key)) (hash t))
                                     leftChild);
                           rightHash =
                             (if rightIsProof then RightHash node
                              else map_option
                                     (\<lambda>c. Node_Hash c (path (Right node) (Some key)) (hash t))
                                     rightChild)
                       in
                       (case (leftHash, rightHash) of
                          (Some lh, Some rh) \<Rightarrow>
                            let node' = node\<lparr>Value := hash t lh rh\<rparr> in
                            (case storage_Put (storage t2) key node' of
                               (Some e, s3) \<Rightarrow> Some (Inl e, t2\<lparr>storage := s3\<rparr>)
                             | (None, s3) \<Rightarrow> Some (Inr node', t2\<lparr>storage := s3\<rparr>))
                        | _ \<Rightarrow> Some (Inl Panic, t2))))"

text \<open>
  \<open>Root\<close>. The storage view is switched to the synced view for the recursion and
  restored on every exit; both are views of the same backend.
\<close>

definition Root :: "Trie \<Rightarrow> ((error + Felt) \<times> Trie) option" where
  "Root t =
     (case (if rootKeyIsDirty t then
              (case rootKey t of
                 None \<Rightarrow>
                   (case storage_DeleteRootKey (storage t) of
                      (Some e, s1) \<Rightarrow> (Some e, t\<lparr>storage := s1\<rparr>)
                    | (None, s1) \<Rightarrow> (None, t\<lparr>storage := s1, rootKeyIsDirty := False\<rparr>))
               | Some rk \<Rightarrow>
                   (case storage_PutRootKey (storage t) rk of
                      (Some e, s1) \<Rightarrow> (Some e, t\<lparr>storage := s1\<rparr>)
                    | (None, s1) \<Rightarrow> (None, t\<lparr>storage := s1, rootKeyIsDirty := False\<rparr>)))
            else (None, t)) of
        (Some e, t1) \<Rightarrow> Some (Inl e, t1)
      | (None, t1) \<Rightarrow>
          (case rootKey t1 of
             None \<Rightarrow> Some (Inr 0, t1)
           | Some rk \<Rightarrow>
               Option.bind
                 (updateValueIfDirty (t1\<lparr>storage := SyncedStorage (storage t1)\<rparr>) rk)
                 (\<lambda>(r, t2).
                    case r of
                      Inl e \<Rightarrow> Some (Inl e, t2)
                    | Inr root \<Rightarrow>
                        Some (Inr (Node_Hash root (path rk None) (hash t2)),
                              t2\<lparr>dirtyNodes := []\<rparr>))))"

definition Commit :: "Trie \<Rightarrow> (error option \<times> Trie) option" where
  "Commit t =
     Option.bind (Root t) (\<lambda>(r, t').
       Some (case r of Inl e \<Rightarrow> Some e | Inr _ \<Rightarrow> None, t'))"

declare nodesFromRoot_loop.simps [code]
declare updateValueIfDirty.simps [code]

section \<open>Auxiliary definitions\<close>

text \<open>Fixtures for concrete runs: an empty in-memory storage whose backend never fails,
  a stand-in hash function, an empty trie, and a backend that fails on one operation.\<close>

definition newMemStorage :: Storage where
  "newMemStorage = \<lparr>nodes = Map.empty, root_slot = None, trace = [], fault = (\<lambda>_ _. None)\<rparr>"

definition toyHash :: "Felt \<Rightarrow> Felt \<Rightarrow> Felt" where
  "toyHash a b = 3 * a + 5 * b + 7"

definition tempTrie :: "nat \<Rightarrow> Trie" where
  "tempTrie h = \<lparr>height = h, rootKey = None, maxKey = 2 ^ h - 1, storage = newMemStorage,
                 hash = toyHash, dirtyNodes = [], rootKeyIsDirty = False\<rparr>"

definition failingOn :: "sop \<Rightarrow> nat \<Rightarrow> Trie \<Rightarrow> Trie" where
  "failingOn op e t = t\<lparr>storage := (storage t)\<lparr>fault := (\<lambda>_ op'. if op' = op then Some e else None)\<rparr>\<rparr>"

definition leafTrie :: Trie where
  "leafTrie =
     \<lparr>height = 2, rootKey = Some [False, True], maxKey = 3,
      storage = \<lparr>nodes = [[False, True] \<mapsto> leafNode 42], root_slot = Some [False, True],
                 trace = [], fault = (\<lambda>_ _. None)\<rparr>,
      hash = toyHash, dirtyNodes = [], rootKeyIsDirty = False\<rparr>"

definition branchTrie :: Trie where
  "branchTrie =
     \<lparr>height = 1, rootKey = Some [], maxKey = 1,
      storage = \<lparr>nodes = [[] \<mapsto> \<lparr>Value = 0, Left = [False], Right = [True],
                                   LeftHash = None, RightHash = None\<rparr>,
                            [False] \<mapsto> leafNode 7, [True] \<mapsto> leafNode 9],
                 root_slot = Some [], trace = [], fault = (\<lambda>_ _. None)\<rparr>,
      hash = toyHash, dirtyNodes = [[True]], rootKeyIsDirty = False\<rparr>"

text \<open>The parts of the body of \<open>updateValueIfDirty\<close>, named for the proofs.\<close>

definition mustUpdate :: "Trie \<Rightarrow> Node \<Rightarrow> Key \<Rightarrow> bool" where
  "mustUpdate t node key =
     (Len key \<noteq> height t \<and>
      (if Left node = NilKey \<and> Right node = NilKey then False
       else if Left node = NilKey \<or> Right node = NilKey then True
       else shouldUpdate_loop (dirtyNodes t) key))"

definition updateChildren ::
  "upd_fn \<Rightarrow> Trie \<Rightarrow> Key \<Rightarrow> Node \<Rightarrow> ((error + Node option \<times> Node option) \<times> Trie) option" where
  "updateChildren upd t1 key node =
     (if Len key \<le> concurrencyMaxDepth
      then updateChildTriesConcurrently upd t1 node (Left node = NilKey) (Right node = NilKey)
      else updateChildTriesSerially upd t1 node (Left node = NilKey) (Right node = NilKey))"

definition childHash :: "Trie \<Rightarrow> Key \<Rightarrow> Key \<Rightarrow> Felt option \<Rightarrow> Node option \<Rightarrow> Felt option" where
  "childHash t key childKey stored child =
     (if childKey = NilKey then stored
      else map_option (\<lambda>c. Node_Hash c (path childKey (Some key)) (hash t)) child)"

definition finishUpdate ::
  "Trie \<Rightarrow> Key \<Rightarrow> Node \<Rightarrow> (error + Node option \<times> Node option) \<Rightarrow> Trie \<Rightarrow> (error + Node) \<times> Trie" where
  "finishUpdate t key node r t2 =
     (case r of
        Inl e \<Rightarrow> (Inl e, t2)
      | Inr (leftChild, rightChild) \<Rightarrow>
          (case (childHash t key (Left node) (LeftHash node) leftChild,
                 childHash t key (Right node) (RightHash node) rightChild) of
             (Some lh, Some rh) \<Rightarrow>
               (case storage_Put (storage t2) key (node\<lparr>Value := hash t lh rh\<rparr>) of
                  (Some e, s3) \<Rightarrow> (Inl e, t2\<lparr>storage := s3\<rparr>)
                | (None, s3) \<Rightarrow> (Inr (node\<lparr>Value := hash t lh rh\<rparr>), t2\<lparr>storage := s3\<rparr>))
           | _ \<Rightarrow> (Inl Panic, t2)))"

text \<open>Two tries have the same frame when they differ in the storage only.\<close>

definition same_frame :: "Trie \<Rightarrow> Trie \<Rightarrow> bool" where
  "same_frame t t' = (t' = t\<lparr>storage := storage t'\<rparr>)"


section \<open>The trie as a tree\<close>

text \<open>
  A trie built by \<open>Put\<close> is a binary tree of branch nodes and leaves. The definitions
  below describe the tree a storage holds (\<open>repr\<close>), its shape (\<open>wft\<close>: every child key
  extends its parent's key by the branch bit, leaves have the full length), the values a
  commitment pass computes (\<open>pval\<close>) and which stored values are still to be recomputed
  (\<open>clean\<close>). \<open>INV\<close> is the invariant of a trie over a backend that never fails.
\<close>

datatype ptree = PLeaf Key Felt | PBranch Key ptree ptree

fun pkey :: "ptree \<Rightarrow> Key" where
  "pkey (PLeaf k v) = k"
| "pkey (PBranch k l r) = k"

fun pkeys :: "ptree \<Rightarrow> Key set" where
  "pkeys (PLeaf k v) = {k}"
| "pkeys (PBranch k l r) = insert k (pkeys l \<union> pkeys r)"

fun pleaves :: "ptree \<Rightarrow> (Key \<times> Felt) set" where
  "pleaves (PLeaf k v) = {(k, v)}"
| "pleaves (PBranch k l r) = pleaves l \<union> pleaves r"

fun wft :: "nat \<Rightarrow> ptree \<Rightarrow> bool" where
  "wft H (PLeaf k v) = (length k = H)"
| "wft H (PBranch k l r) =
     (prefix (k @ [False]) (pkey l) \<and> prefix (k @ [True]) (pkey r) \<and> wft H l \<and> wft H r)"

definition branchNode :: "Felt \<Rightarrow> Key \<Rightarrow> Key \<Rightarrow> Node" where
  "branchNode val l r = \<lparr>Value = val, Left = l, Right = r, LeftHash = None, RightHash = None\<rparr>"

fun repr :: "(Key \<rightharpoonup> Node) \<Rightarrow> ptree \<Rightarrow> bool" where
  "repr m (PLeaf k v) = (m k = Some (leafNode v))"
| "repr m (PBranch k l r) =
     ((\<exists>val. m k = Some (branchNode val (pkey l) (pkey r))) \<and> repr m l \<and> repr m r)"

definition hashAt :: "(Felt \<Rightarrow> Felt \<Rightarrow> Felt) \<Rightarrow> Felt \<Rightarrow> Key \<Rightarrow> Felt" where
  "hashAt h val p = (if Len p = 0 then val else h val (Key_Felt p))"

fun pval :: "(Felt \<Rightarrow> Felt \<Rightarrow> Felt) \<Rightarrow> ptree \<Rightarrow> Felt" where
  "pval h (PLeaf k v) = v"
| "pval h (PBranch k l r) =
     h (hashAt h (pval h l) (path (pkey l) (Some k))) (hashAt h (pval h r) (path (pkey r) (Some k)))"

fun clean :: "(Key \<rightharpoonup> Node) \<Rightarrow> (Felt \<Rightarrow> Felt \<Rightarrow> Felt) \<Rightarrow> Key list \<Rightarrow> ptree \<Rightarrow> bool" where
  "clean m h D (PLeaf k v) = True"
| "clean m h D (PBranch k l r) =
     ((map_option Value (m k) = Some (pval h (PBranch k l r)) \<or> shouldUpdate_loop D k)
      \<and> clean m h D l \<and> clean m h D r)"

definition reliable :: "Storage \<Rightarrow> bool" where
  "reliable s = (\<forall>tr op. fault s tr op = None)"

definition INV :: "Trie \<Rightarrow> bool" where
  "INV t =
     (reliable (storage t) \<and> height t < 256 \<and> maxKey t = 2 ^ height t - 1 \<and>
      (case rootKey t of
         None \<Rightarrow> nodes (storage t) = Map.empty
       | Some rk \<Rightarrow>
           (\<exists>T. pkey T = rk \<and> wft (height t) T \<and> repr (nodes (storage t)) T \<and>
                dom (nodes (storage t)) = pkeys T \<and>
                clean (nodes (storage t)) (hash t) (dirtyNodes t) T)))"

text \<open>Search path of a key in a tree, as the descent of nodesFromRoot follows it.\<close>

fun ppath :: "Key \<Rightarrow> ptree \<Rightarrow> ptree list" where
  "ppath k (PLeaf k' v) = [PLeaf k' v]"
| "ppath k (PBranch k' l r) =
     PBranch k' l r #
       (if length k \<le> length k' \<or> \<not> prefix k' k then []
        else if k ! length k' then ppath k r else ppath k l)"

fun isGet :: "sop \<Rightarrow> bool" where
  "isGet (OpGet k) = True"
| "isGet _ = False"

definition snode :: "(Key \<rightharpoonup> Node) \<Rightarrow> ptree \<Rightarrow> StorageNode" where
  "snode m S = \<lparr>sn_key = pkey S, sn_node = the (m (pkey S))\<rparr>"

definition logged :: "Trie \<Rightarrow> sop list \<Rightarrow> Trie" where
  "logged t ops = t\<lparr>storage := (storage t)\<lparr>trace := trace (storage t) @ ops\<rparr>\<rparr>"



definition twoTrie :: Trie where
  "twoTrie =
     \<lparr>height = 2, rootKey = Some [], maxKey = 3,
      storage = \<lparr>nodes = [[] \<mapsto> branchNode 576 [False, True] [True, False],
                            [False, True] \<mapsto> leafNode 42, [True, False] \<mapsto> leafNode 8],
                 root_slot = Some [], trace = [], fault = (\<lambda>_ _. None)\<rparr>,
      hash = toyHash, dirtyNodes = [], rootKeyIsDirty = False\<rparr>"

definition threeTrie :: Trie where
  "threeTrie =
     \<lparr>height = 2, rootKey = Some [], maxKey = 3,
      storage = \<lparr>nodes = [[] \<mapsto> branchNode 876 [False] [True, False],
                            [False] \<mapsto> branchNode 238 [False, False] [False, True],
                            [False, False] \<mapsto> leafNode 7, [False, True] \<mapsto> leafNode 42,
                            [True, False] \<mapsto> leafNode 8],
                 root_slot = Some [], trace = [], fault = (\<lambda>_ _. None)\<rparr>,
      hash = toyHash, dirtyNodes = [], rootKeyIsDirty = False\<rparr>"




definition halfTrie :: Trie where
  "halfTrie =
     \<lparr>height = 2, rootKey = Some [], maxKey = 3,
      storage = \<lparr>nodes = [[] \<mapsto> \<lparr>Value = 0, Left = [False, True], Right = NilKey,
                                   LeftHash = None, RightHash = Some 5\<rparr>,
                            [False, True] \<mapsto> leafNode 42],
                 root_slot = Some [], trace = [], fault = (\<lambda>_ _. None)\<rparr>,
      hash = toyHash, dirtyNodes = [], rootKeyIsDirty = False\<rparr>"

definition danglingTrie :: Trie where
  "danglingTrie =
     \<lparr>height = 2, rootKey = Some [], maxKey = 3,
      storage = \<lparr>nodes = Map.empty, root_slot = Some [],
                 trace = [OpGet [], OpGet [False, True], OpDelete [False, True], OpDelete []],
                 fault = (\<lambda>_ _. None)\<rparr>,
      hash = toyHash, dirtyNodes = [], rootKeyIsDirty = True\<rparr>"

section \<open>The commitment pass as a relation\<close>

text \<open>
  Definitions for the proofs about \<open>Root\<close>. A node with exactly one NIL link is
  recomputed by every pass (\<open>oneNil\<close>); \<open>mustUpd\<close> is the test of
  \<open>updateValueIfDirty\<close> on the height and the dirty list alone. \<open>evalNode h H D m P k n\<close>
  says that a pass over the node map \<open>m\<close> yields the node \<open>n\<close> at the key
  \<open>k\<close>, and that \<open>P\<close> holds of every key and node it yields on the way.
  \<open>grows\<close> relates two node maps when the second differs from the first only in
  nodes such a pass yields. \<open>isReput\<close> holds of a read, and of a put that stores a
  node with one NIL link where the same node is stored already.
\<close>

definition oneNil :: "Node \<Rightarrow> bool" where
  "oneNil n = ((Left n = NilKey) \<noteq> (Right n = NilKey))"

definition mustUpd :: "nat \<Rightarrow> Key list \<Rightarrow> Node \<Rightarrow> Key \<Rightarrow> bool" where
  "mustUpd H D node key =
     (Len key \<noteq> H \<and>
      (if Left node = NilKey \<and> Right node = NilKey then False
       else if Left node = NilKey \<or> Right node = NilKey then True
       else shouldUpdate_loop D key))"

inductive evalNode ::
  "(Felt \<Rightarrow> Felt \<Rightarrow> Felt) \<Rightarrow> nat \<Rightarrow> Key list \<Rightarrow> (Key \<rightharpoonup> Node) \<Rightarrow> (Key \<Rightarrow> Node \<Rightarrow> bool) \<Rightarrow>
   Key \<Rightarrow> Node \<Rightarrow> bool"
  for h H D m P where
  Keep: "m k = Some node \<Longrightarrow> \<not> mustUpd H D node k \<Longrightarrow> P k node \<Longrightarrow> evalNode h H D m P k node"
| Rec: "m k = Some node \<Longrightarrow> mustUpd H D node k \<Longrightarrow>
        (Left node = NilKey \<and> LeftHash node = Some lh) \<or>
        (Left node \<noteq> NilKey \<and>
         (\<exists>c. evalNode h H D m P (Left node) c \<and>
              lh = Node_Hash c (path (Left node) (Some k)) h)) \<Longrightarrow>
        (Right node = NilKey \<and> RightHash node = Some rh) \<or>
        (Right node \<noteq> NilKey \<and>
         (\<exists>c. evalNode h H D m P (Right node) c \<and>
              rh = Node_Hash c (path (Right node) (Some k)) h)) \<Longrightarrow>
        P k (node\<lparr>Value := h lh rh\<rparr>) \<Longrightarrow>
        evalNode h H D m P k (node\<lparr>Value := h lh rh\<rparr>)"

definition grows ::
  "(Felt \<Rightarrow> Felt \<Rightarrow> Felt) \<Rightarrow> nat \<Rightarrow> Key list \<Rightarrow> (Key \<rightharpoonup> Node) \<Rightarrow>
   (Key \<rightharpoonup> Node) \<Rightarrow> (Key \<rightharpoonup> Node) \<Rightarrow> bool" where
  "grows h H D m a b =
     (\<forall>k. b k = a k \<or> (\<exists>n. evalNode h H D m (\<lambda>_ _. True) k n \<and> b k = Some n))"

fun isReput :: "(Key \<rightharpoonup> Node) \<Rightarrow> sop \<Rightarrow> bool" where
  "isReput m (OpGet k) = True"
| "isReput m (OpPut k n) = (m k = Some n \<and> oneNil n)"
| "isReput m _ = False"

text \<open>What one call of the commitment pass does to the stored nodes.\<close>

definition pass_grows :: "Trie \<Rightarrow> Trie \<Rightarrow> bool" where
  "pass_grows a b =
     (same_frame a b \<and>
      (\<forall>m. grows (hash a) (height a) (dirtyNodes a) m m (nodes (storage a)) \<longrightarrow>
           grows (hash a) (height a) (dirtyNodes a) m (nodes (storage a)) (nodes (storage b))))"

definition pass_ok :: "Trie \<Rightarrow> Key \<Rightarrow> (error + Node) \<times> Trie \<Rightarrow> bool" where
  "pass_ok t k y =
     (pass_grows t (snd y) \<and>
      (\<forall>m n. grows (hash t) (height t) (dirtyNodes t) m m (nodes (storage t)) \<longrightarrow>
             fst y = Inr n \<longrightarrow>
             evalNode (hash t) (height t) (dirtyNodes t) m
               (\<lambda>k n. nodes (storage (snd y)) k = Some n) k n))"

text \<open>A call that leaves the stored nodes as they are: it reads, and stores again
  what is stored already.\<close>

definition quiet :: "Trie \<Rightarrow> Trie \<Rightarrow> bool" where
  "quiet a b =
     (same_frame a b \<and> nodes (storage b) = nodes (storage a) \<and>
      root_slot (storage b) = root_slot (storage a) \<and>
      fault (storage b) = fault (storage a) \<and>
      (\<exists>ops. trace (storage b) = trace (storage a) @ ops \<and>
             list_all (isReput (nodes (storage a))) ops))"

definition pass2 :: "Trie \<Rightarrow> Key \<Rightarrow> (error + Node) \<times> Trie \<Rightarrow> bool" where
  "pass2 t k y =
     (dirtyNodes t = [] \<longrightarrow>
      (\<forall>D m n. evalNode (hash t) (height t) D m (\<lambda>k n. nodes (storage t) k = Some n) k n \<longrightarrow>
         quiet t (snd y) \<and> (\<forall>n2. fst y = Inr n2 \<longrightarrow> n2 = n)))"

definition halfTrieRooted :: Trie where
  "halfTrieRooted =
     \<lparr>height = 2, rootKey = Some [], maxKey = 3,
      storage = \<lparr>nodes = [[False, True] \<mapsto> leafNode 42,
                            [] \<mapsto> \<lparr>Value = 446, Left = [False, True], Right = NilKey,
                                   LeftHash = None, RightHash = Some 5\<rparr>],
                 root_slot = Some [],
                 trace = [OpGet [], OpGet [False, True],
                          OpPut [] \<lparr>Value = 446, Left = [False, True], Right = NilKey,
                                      LeftHash = None, RightHash = Some 5\<rparr>],
                 fault = (\<lambda>_ _. None)\<rparr>,
      hash = toyHash, dirtyNodes = [], rootKeyIsDirty = False\<rparr>"

section \<open>The recursion of the commitment pass\<close>

lemma updateValueIfDirty_body:
  "(case storage_Get (storage t) key of
        (Inl e, s1) \<Rightarrow> Some (Inl e, t\<lparr>storage := s1\<rparr>)
      | (Inr node, s1) \<Rightarrow>
          let t1 = t\<lparr>storage := s1\<rparr> in
          if Len key = height t then Some (Inr node, t1)
          else
            let shouldUpdate =
                  (if Left node = NilKey \<and> Right node = NilKey then False
                   else if Left node = NilKey \<or> Right node = NilKey then True
                   else shouldUpdate_loop (dirtyNodes t) key)
            in
            if \<not> shouldUpdate then Some (Inr node, t1)
            else
              let leftIsProof = (Left node = NilKey);
                  rightIsProof = (Right node = NilKey)
              in
              Option.bind
                (if Len key \<le> concurrencyMaxDepth
                 then updateChildTriesConcurrently upd t1 node leftIsProof rightIsProof
                 else updateChildTriesSerially upd t1 node leftIsProof rightIsProof)
                (\<lambda>(r, t2).
                   case r of
                     Inl e \<Rightarrow> Some (Inl e, t2)
                   | Inr (leftChild, rightChild) \<Rightarrow>
                       let leftHash =
                             (if leftIsProof then LeftHash node
                              else map_option
                                     (\<lambda>c. Node_Hash c (path (Left node) (Some key)) (hash t))
                                     leftChild);
                           rightHash =
                             (if rightIsProof then RightHash node
                              else map_option
                                     (\<lambda>c. Node_Hash c (path (Right node) (Some key)) (hash t))
                                     rightChild)
                       in
                       (case (leftHash, rightHash) of
                          (Some lh, Some rh) \<Rightarrow>
                            let node' = node\<lparr>Value := hash t lh rh\<rparr> in
                            (case storage_Put (storage t2) key node' of
                               (Some e, s3) \<Rightarrow> Some (Inl e, t2\<lparr>storage := s3\<rparr>)
                             | (None, s3) \<Rightarrow> Some (Inr node', t2\<lparr>storage := s3\<rparr>))
                        | _ \<Rightarrow> Some (Inl Panic, t2)))) =
   (case storage_Get (storage t) key of
      (Inl e, s1) \<Rightarrow> Some (Inl e, t\<lparr>storage := s1\<rparr>)
    | (Inr node, s1) \<Rightarrow>
        if \<not> mustUpdate t node key then Some (Inr node, t\<lparr>storage := s1\<rparr>)
        else Option.bind (updateChildren upd (t\<lparr>storage := s1\<rparr>) key node)
               (\<lambda>(r, t2). Some (finishUpdate t key node r t2)))"
proof -
  obtain g s1 where g: "storage_Get (storage t) key = (g, s1)"
    by (cases "storage_Get (storage t) key")
  show ?thesis
  proof (cases g)
    case (Inl e)
    then show ?thesis using g by simp
  next
    case (Inr node)
    show ?thesis
    proof (cases "mustUpdate t node key")
      case False
      then show ?thesis using g Inr by (auto simp: mustUpdate_def Let_def)
    next
      case True
      have fin: "(\<lambda>(r, t2).
                   case r of
                     Inl e \<Rightarrow> Some (Inl e, t2)
                   | Inr (leftChild, rightChild) \<Rightarrow>
                       let leftHash =
                             (if Left node = NilKey then LeftHash node
                              else map_option
                                     (\<lambda>c. Node_Hash c (path (Left node) (Some key)) (hash t))
                                     leftChild);
                           rightHash =
                             (if Right node = NilKey then RightHash node
                              else map_option
                                     (\<lambda>c. Node_Hash c (path (Right node) (Some key)) (hash t))
                                     rightChild)
                       in
                       (case (leftHash, rightHash) of
                          (Some lh, Some rh) \<Rightarrow>
                            let node' = node\<lparr>Value := hash t lh rh\<rparr> in
                            (case storage_Put (storage t2) key node' of
                               (Some e, s3) \<Rightarrow> Some (Inl e, t2\<lparr>storage := s3\<rparr>)
                             | (None, s3) \<Rightarrow> Some (Inr node', t2\<lparr>storage := s3\<rparr>))
                        | _ \<Rightarrow> Some (Inl Panic, t2)))
           = (\<lambda>(r, t2). Some (finishUpdate t key node r t2))"
        by (simp add: fun_eq_iff finishUpdate_def childHash_def Let_def
            split: prod.split sum.split option.split)
      have m: "Len key \<noteq> height t" "(if Left node = NilKey \<and> Right node = NilKey then False
       else if Left node = NilKey \<or> Right node = NilKey then True
       else shouldUpdate_loop (dirtyNodes t) key)"
        using True unfolding mustUpdate_def by blast+
      show ?thesis
        unfolding g Inr using True m
        by (auto simp: Let_def updateChildren_def fin split: if_splits)
    qed
  qed
qed

lemma updateValueIfDirty_unfold:
  "updateValueIfDirty t key =
   (case storage_Get (storage t) key of
      (Inl e, s1) \<Rightarrow> Some (Inl e, t\<lparr>storage := s1\<rparr>)
    | (Inr node, s1) \<Rightarrow>
        if \<not> mustUpdate t node key then Some (Inr node, t\<lparr>storage := s1\<rparr>)
        else Option.bind (updateChildren updateValueIfDirty (t\<lparr>storage := s1\<rparr>) key node)
               (\<lambda>(r, t2). Some (finishUpdate t key node r t2)))"
  by (subst updateValueIfDirty.simps) (rule updateValueIfDirty_body)


lemma updateValueIfDirty_induct [consumes 1, case_names GetErr Keep Rec]:
  assumes res: "updateValueIfDirty t key = Some y"
    and geterr: "\<And>t key e s1. storage_Get (storage t) key = (Inl e, s1) \<Longrightarrow>
                   P t key (Inl e, t\<lparr>storage := s1\<rparr>)"
    and keep: "\<And>t key node s1. storage_Get (storage t) key = (Inr node, s1) \<Longrightarrow>
                   \<not> mustUpdate t node key \<Longrightarrow> P t key (Inr node, t\<lparr>storage := s1\<rparr>)"
    and rec: "\<And>upd t key node s1 r t2.
                 storage_Get (storage t) key = (Inr node, s1) \<Longrightarrow> mustUpdate t node key \<Longrightarrow>
                 (\<And>t k y. upd t k = Some y \<Longrightarrow> P t k y) \<Longrightarrow>
                 updateChildren upd (t\<lparr>storage := s1\<rparr>) key node = Some (r, t2) \<Longrightarrow>
                 P t key (finishUpdate t key node r t2)"
  shows "P t key y"
  using res
proof (induction rule: updateValueIfDirty.raw_induct [rotated 1, consumes 1])
  case (1 upd t key y)
  obtain g s1 where g: "storage_Get (storage t) key = (g, s1)"
    by (cases "storage_Get (storage t) key")
  note body = 1(2) [unfolded updateValueIfDirty_body]
  show ?case
  proof (cases g)
    case (Inl e)
    then show ?thesis using body g geterr [of t key e s1] by simp
  next
    case (Inr node)
    show ?thesis
    proof (cases "mustUpdate t node key")
      case False
      then show ?thesis using body g Inr keep [of t key node s1] by simp
    next
      case True
      then obtain r t2 where ch: "updateChildren upd (t\<lparr>storage := s1\<rparr>) key node = Some (r, t2)"
        and y: "y = finishUpdate t key node r t2"
        using body g Inr by (auto split: Option.bind_splits)
      show ?thesis unfolding y
        by (rule rec [OF g [unfolded Inr] True _ ch]) (rule 1(1))
    qed
  qed
qed

lemma updateChild_cases:
  assumes "updateChild upd t k p = Some (r, t')"
  obtains (Proof) "p" "r = Inr None" "t' = t"
  | (Call) rn where "\<not> p" "upd t k = Some (rn, t')" "r = map_sum id Some rn"
  using assms by (auto simp: updateChild_def split: if_splits Option.bind_splits)

lemma updateChildren_cases:
  assumes "updateChildren upd t1 key node = Some (r, t2)"
  obtains (Both) cl tl cr where
      "updateChild upd t1 (Left node) (Left node = NilKey) = Some (Inr cl, tl)"
      "updateChild upd tl (Right node) (Right node = NilKey) = Some (Inr cr, t2)"
      "r = Inr (cl, cr)"
  | (LeftErrSerial) e where
      "updateChild upd t1 (Left node) (Left node = NilKey) = Some (Inl e, t2)"
      "r = Inl e" "\<not> Len key \<le> concurrencyMaxDepth"
  | (LeftErrConcurrent) e tl rr where
      "updateChild upd t1 (Left node) (Left node = NilKey) = Some (Inl e, tl)"
      "updateChild upd tl (Right node) (Right node = NilKey) = Some (rr, t2)"
      "r = Inl e" "Len key \<le> concurrencyMaxDepth"
  | (RightErr) cl tl e where
      "updateChild upd t1 (Left node) (Left node = NilKey) = Some (Inr cl, tl)"
      "updateChild upd tl (Right node) (Right node = NilKey) = Some (Inl e, t2)"
      "r = Inl e"
  using assms
  by (auto simp: updateChildren_def updateChildTriesConcurrently_def updateChildTriesSerially_def
      split: if_splits Option.bind_splits sum.splits)


lemma same_frame_refl [simp]: "same_frame t t"
  by (simp add: same_frame_def)

lemma same_frame_trans: "same_frame a b \<Longrightarrow> same_frame b c \<Longrightarrow> same_frame a c"
  by (cases a, cases b, cases c) (simp add: same_frame_def)

lemma same_frame_storage [simp]: "same_frame t (t\<lparr>storage := s\<rparr>)"
  by (simp add: same_frame_def)

lemma same_frame_storage2: "same_frame t t2 \<Longrightarrow> same_frame t (t2\<lparr>storage := s\<rparr>)"
  by (rule same_frame_trans [OF _ same_frame_storage])

lemma finishUpdate_frame: "same_frame t t2 \<Longrightarrow> same_frame t (snd (finishUpdate t0 key node r t2))"
  by (auto simp: finishUpdate_def same_frame_storage2 split: sum.splits option.splits prod.splits)

lemma updateChild_rel:
  assumes "\<forall>t k y. upd t k = Some y \<longrightarrow> Q t (snd y)" "\<forall>t. Q t t"
    and "updateChild upd t k p = Some (r, t')"
  shows "Q t t'"
  using assms(3,1,2) by (cases rule: updateChild_cases) auto

lemma updateChildren_rel:
  assumes upd: "\<forall>t k y. upd t k = Some y \<longrightarrow> Q t (snd y)" and refl: "\<forall>t. Q t t"
    and trans: "\<forall>a b c. Q a b \<longrightarrow> Q b c \<longrightarrow> Q a c"
    and res: "updateChildren upd t1 key node = Some (r, t2)"
  shows "Q t1 t2"
  using res
proof (cases rule: updateChildren_cases)
  case (Both cl tl cr)
  then show ?thesis using updateChild_rel [OF upd refl] trans by blast
next
  case (LeftErrSerial e)
  then show ?thesis using updateChild_rel [OF upd refl] by blast
next
  case (LeftErrConcurrent e tl rr)
  then show ?thesis using updateChild_rel [OF upd refl] trans by blast
next
  case (RightErr cl tl e)
  then show ?thesis using updateChild_rel [OF upd refl] trans by blast
qed

lemma updateValueIfDirty_frame:
  assumes "updateValueIfDirty t key = Some y"
  shows "same_frame t (snd y)"
  using assms
proof (induction rule: updateValueIfDirty_induct)
  case (GetErr t key e s1)
  then show ?case by simp
next
  case (Keep t key node s1)
  then show ?case by simp
next
  case (Rec upd t key node s1 r t2)
  have IH': "\<forall>t k y. upd t k = Some y \<longrightarrow> same_frame t (snd y)"
    using Rec.IH by blast
  have tr: "\<forall>a b c. same_frame a b \<longrightarrow> same_frame b c \<longrightarrow> same_frame a c"
    using same_frame_trans by blast
  have "same_frame (t\<lparr>storage := s1\<rparr>) t2"
    using updateChildren_rel [OF IH' _ tr Rec.hyps(3)] by simp
  then have "same_frame t t2"
    by (rule same_frame_trans [OF same_frame_storage])
  then show ?case by (rule finishUpdate_frame)
qed

lemma FeltToKey_2 [simp]:
  "FeltToKey 2 0 = [False, False]" "FeltToKey 2 (Suc 0) = [False, True]"
  "FeltToKey 2 2 = [True, False]" "FeltToKey 2 3 = [True, True]"
  by (simp_all add: FeltToKey_def upt_rec)

lemma SyncedStorage_view [simp]: "t\<lparr>storage := SyncedStorage (storage t)\<rparr> = t"
  by (simp add: SyncedStorage_def)

lemmas eval_defs =
  updateValueIfDirty_unfold storage_Get_def storage_Put_def mustUpdate_def NilKey_def Len_def
  isSubset_def updateChildren_def concurrencyMaxDepth_def updateChildTriesConcurrently_def
  updateChildTriesSerially_def updateChild_def leafNode_def finishUpdate_def childHash_def
  Node_Hash_def path_def sub8_def Truncate_def Key_Felt_def toyHash_def SyncedStorage_def
  storage_PutRootKey_def storage_DeleteRootKey_def failingOn_def


section \<open>The storage operations and the write path\<close>

lemma storage_Get_props:
  assumes "storage_Get s k = (r, s')"
  shows "s' = s\<lparr>trace := trace s @ [OpGet k]\<rparr>"
    and "r = Inr n \<Longrightarrow> nodes s k = Some n"
    and "r = Inl ErrKeyNotFound \<Longrightarrow> nodes s k = None"
  using assms by (auto simp: storage_Get_def Let_def split: option.splits)

lemma storage_Put_props:
  assumes "storage_Put s k n = (r, s')"
  shows "r = None \<Longrightarrow> s' = s\<lparr>trace := trace s @ [OpPut k n], nodes := (nodes s)(k \<mapsto> n)\<rparr>"
    and "r = Some e \<Longrightarrow> s' = s\<lparr>trace := trace s @ [OpPut k n]\<rparr>"
  using assms by (auto simp: storage_Put_def Let_def split: option.splits)

lemma storage_Put_ok_nodes:
  "storage_Put s k n = (None, s') \<Longrightarrow> nodes s' = (nodes s)(k \<mapsto> n)"
  by (auto simp: storage_Put_def Let_def split: option.splits)

lemma nodesFromRoot_loop_props:
  assumes "nodesFromRoot_loop key cur nds t = Some y"
  shows "same_frame t (snd y) \<and> nodes (storage (snd y)) = nodes (storage t) \<and>
         (\<forall>nds'. fst y = Inr nds' \<longrightarrow>
            (\<exists>new. nds' = nds @ new \<and>
               (\<forall>n \<in> set new. nodes (storage t) (sn_key n) = Some (sn_node n))))"
  using assms
proof (induction rule: nodesFromRoot_loop.raw_induct [rotated 1, consumes 1])
  case (1 loop key cur nds t y)
  show ?case
  proof (cases cur)
    case None
    then show ?thesis using 1(2) by auto
  next
    case (Some c)
    show ?thesis
    proof (cases "0 < length nds \<and> Len c = 0")
      case True
      then show ?thesis using 1(2) Some by auto
    next
      case False
      obtain g s1 where g: "storage_Get (storage t) c = (g, s1)"
        by (cases "storage_Get (storage t) c")
      note gp = storage_Get_props [OF g]
      show ?thesis
      proof (cases g)
        case (Inl e)
        then show ?thesis using 1(2) Some False g gp(1) by auto
      next
        case (Inr node)
        let ?nds' = "nds @ [\<lparr>sn_key = c, sn_node = node\<rparr>]"
        let ?t' = "t\<lparr>storage := s1\<rparr>"
        have nd: "nodes (storage t) c = Some node" using gp(2) Inr by simp
        show ?thesis
        proof (cases "Len key \<le> Len c \<or> \<not> isSubset key c")
          case True
          then show ?thesis using 1(2) Some False g Inr gp(1) nd by (auto simp: Let_def)
        next
          case stop: False
          obtain nxt where call: "loop key (Some nxt) ?nds' ?t' = Some y"
            using 1(2) Some False g Inr stop by (auto simp: Let_def split: if_splits)
          have IH: "same_frame ?t' (snd y) \<and> nodes (storage (snd y)) = nodes (storage ?t') \<and>
             (\<forall>nds'a. fst y = Inr nds'a \<longrightarrow>
               (\<exists>new. nds'a = ?nds' @ new \<and>
                 (\<forall>n \<in> set new. nodes (storage ?t') (sn_key n) = Some (sn_node n))))"
            by (rule 1(1) [OF call])
          have sf: "same_frame t (snd y)"
            using IH by (blast intro: same_frame_trans [OF same_frame_storage])
          show ?thesis using IH sf nd gp(1) by auto
        qed
      qed
    qed
  qed
qed


lemma updateLeaf_cases:
  assumes "updateLeaf t nodeKey node v = (r, t1)"
  obtains (Zero) "v = 0" "r = Inr None" "t1 = t"
  | (Err) e where "v \<noteq> 0" "r = Inl e" "same_frame t t1" "nodes (storage t1) = nodes (storage t)"
  | (Absent) "v \<noteq> 0" "r = Inr None" "same_frame t t1" "nodes (storage t1) = nodes (storage t)"
      "nodes (storage t) nodeKey = None"
  | (Updated) old where "v \<noteq> 0" "r = Inr (Some (Value old))" "nodes (storage t) nodeKey = Some old"
      "nodes (storage t1) = (nodes (storage t))(nodeKey \<mapsto> node)" "height t1 = height t"
proof (cases "v = 0")
  case True
  then show ?thesis using assms Zero by (simp add: updateLeaf_def)
next
  case False
  obtain g s1 where g: "storage_Get (storage t) nodeKey = (g, s1)"
    by (cases "storage_Get (storage t) nodeKey")
  note gp = storage_Get_props [OF g]
  show ?thesis
  proof (cases g)
    case (Inl e)
    show ?thesis
    proof (cases "e = ErrKeyNotFound")
      case True
      then show ?thesis using assms False g Inl gp Absent by (auto simp: updateLeaf_def)
    next
      case ne: False
      then show ?thesis using assms False g Inl gp(1) Err [of e] by (auto simp: updateLeaf_def)
    qed
  next
    case (Inr leaf)
    obtain p s2 where p: "storage_Put s1 nodeKey node = (p, s2)"
      by (cases "storage_Put s1 nodeKey node")
    note pp = storage_Put_props [OF p]
    show ?thesis
    proof (cases p)
      case None
      then show ?thesis
        using assms False g Inr gp(1,2) p pp(1) Updated [of leaf]
        by (auto simp: updateLeaf_def Let_def)
    next
      case (Some e)
      then show ?thesis
        using assms False g Inr gp(1) p pp(2) [of e] Err [of e]
        by (auto simp: updateLeaf_def Let_def same_frame_def)
    qed
  qed
qed

lemma handleEmptyTrie_ok:
  assumes "handleEmptyTrie t old nodeKey node v = (Inr r, t')" "v \<noteq> 0"
  shows "nodes (storage t') = (nodes (storage t))(nodeKey \<mapsto> node) \<and> height t' = height t"
  using assms
  by (auto simp: handleEmptyTrie_def setRootKey_def split: prod.splits option.splits
      dest: storage_Put_ok_nodes)

lemma insertOrUpdateValue_ok:
  assumes "insertOrUpdateValue t nodeKey node nds sibling isProof = (None, t')"
  shows "nodes (storage t') nodeKey = Some node \<and> height t' = height t"
proof -
  have put: "\<And>t0 r t1. (case storage_Put (storage t0) nodeKey node of (r, s') \<Rightarrow> (r, t0\<lparr>storage := s'\<rparr>)) = (None, t1)
      \<Longrightarrow> nodes (storage t1) nodeKey = Some node \<and> height t1 = height t0"
    by (auto split: prod.splits dest: storage_Put_ok_nodes)
  show ?thesis
  proof (cases isProof)
    case True
    then show ?thesis using assms
      by (auto simp: insertOrUpdateValue_def Let_def GetNodeFromKey_def
          split: prod.splits sum.splits option.splits dest!: put dest: storage_Put_ok_nodes)
  next
    case False
    then show ?thesis using assms
      by (auto simp: insertOrUpdateValue_def Let_def setRootKey_def
          split: prod.splits sum.splits option.splits if_splits dest!: put dest: storage_Put_ok_nodes)
  qed
qed

lemma deleteExistingKey_other:
  "nodeKey \<noteq> sn_key sibling \<Longrightarrow> deleteExistingKey t sibling nodeKey nds = (Inr None, t)"
  by (simp add: deleteExistingKey_def)


lemma same_frame_height: "same_frame t t' \<Longrightarrow> height t' = height t"
  by (cases t, cases t') (simp add: same_frame_def)

lemma Get_stored_leaf:
  assumes "nodes (storage t) (FeltToKey (height t) key) = Some n"
    and "fault (storage t) (trace (storage t)) (OpGet (FeltToKey (height t) key)) = None"
  shows "fst (Get t key) = Inr (Value n)"
  using assms by (simp add: Get_def storage_Get_def Let_def)

lemma Put_stores_leaf:
  assumes v: "v \<noteq> 0" and put: "Put t key v = Some (Inr old, t')"
  shows "nodes (storage t') (FeltToKey (height t) key) = Some (leafNode v) \<and> height t' = height t"
proof -
  let ?nodeKey = "FeltToKey (height t) key"
  let ?node = "leafNode v"
  have le: "\<not> maxKey t < key" using put by (auto simp: Put_def)
  obtain r1 t1 where ul: "updateLeaf t ?nodeKey ?node v = (r1, t1)"
    by (cases "updateLeaf t ?nodeKey ?node v")
  from ul show ?thesis
  proof (cases rule: updateLeaf_cases)
    case Zero
    then show ?thesis using v by simp
  next
    case (Err e)
    then show ?thesis using put le ul by (simp add: Put_def)
  next
    case (Updated leaf)
    then show ?thesis using put le ul by (auto simp: Put_def)
  next
    case Absent
    obtain r2 t2 where d: "nodesFromRoot t1 ?nodeKey = Some (r2, t2)"
      and rest: "(case r2 of
                Inl e \<Rightarrow> Some (Inl e, t2)
              | Inr nds \<Rightarrow>
                  if length nds = 0 then Some (handleEmptyTrie t2 0 ?nodeKey ?node v)
                  else
                    let sibling = nds ! (length nds - 1) in
                    (case deleteExistingKey t2 sibling ?nodeKey nds of
                       (Inl e, t3) \<Rightarrow> Some (Inl e, t3)
                     | (Inr (Some oldValue), t3) \<Rightarrow> Some (Inr (Some oldValue), t3)
                     | (Inr None, t3) \<Rightarrow>
                         if v = 0 then Some (Inr None, t3)
                         else
                           (case insertOrUpdateValue t3 ?nodeKey ?node nds sibling False of
                              (Some e, t4) \<Rightarrow> Some (Inl e, t4)
                            | (None, t4) \<Rightarrow> Some (Inr (Some 0), t4)))) = Some (Inr old, t')"
      using put le ul Absent(2) by (auto simp: Put_def Let_def split: Option.bind_splits)
    have dp: "same_frame t1 t2" "nodes (storage t2) = nodes (storage t1)"
      "\<And>nds. r2 = Inr nds \<Longrightarrow> \<forall>n \<in> set nds. nodes (storage t1) (sn_key n) = Some (sn_node n)"
      using nodesFromRoot_loop_props [OF d [unfolded nodesFromRoot_def]] by auto
    have h2: "height t2 = height t"
      using dp(1) Absent(3) by (simp add: same_frame_height)
    show ?thesis
    proof (cases r2)
      case (Inl e)
      then show ?thesis using rest by simp
    next
      case (Inr nds)
      show ?thesis
      proof (cases "length nds = 0")
        case True
        then have "handleEmptyTrie t2 0 ?nodeKey ?node v = (Inr old, t')"
          using rest Inr by simp
        from handleEmptyTrie_ok [OF this v] show ?thesis using h2 by simp
      next
        case False
        let ?sib = "nds ! (length nds - 1)"
        have "?sib \<in> set nds" using False by simp
        then have "nodes (storage t1) (sn_key ?sib) = Some (sn_node ?sib)"
          using dp(3) [OF Inr] by blast
        then have ne: "?nodeKey \<noteq> sn_key ?sib"
          using Absent(4,5) by auto
        have "(case insertOrUpdateValue t2 ?nodeKey ?node nds ?sib False of
                              (Some e, t4) \<Rightarrow> Some (Inl e, t4)
                            | (None, t4) \<Rightarrow> Some (Inr (Some 0), t4)) = Some (Inr old, t')"
          using rest Inr False v deleteExistingKey_other [OF ne, of t2 nds]
          by (simp add: Let_def)
        then have "insertOrUpdateValue t2 ?nodeKey ?node nds ?sib False = (None, t')"
          by (auto split: prod.splits option.splits)
        from insertOrUpdateValue_ok [OF this] show ?thesis using h2 by simp
      qed
    qed
  qed
qed


section \<open>Descent and deletion on a represented tree\<close>

lemma Node_Hash_hashAt: "Node_Hash n p h = hashAt h (Value n) p"
  by (simp add: Node_Hash_def hashAt_def)

lemma sub8_small: "b \<le> a \<Longrightarrow> a < 256 \<Longrightarrow> sub8 a b = a - b"
proof -
  assume a: "b \<le> a" "a < 256"
  have m: "a mod 256 = a" "b mod 256 = b" using a by simp_all
  have e: "a + 256 - b = (a - b) + 256" using a by arith
  have "(a - b + 256) mod 256 = (a - b) mod 256" by (rule mod_add_self2)
  also have "\<dots> = a - b" by (rule mod_less) (use a in arith)
  finally show ?thesis unfolding sub8_def m e .
qed

lemma bitpos: "c < n \<Longrightarrow> n < 256 \<Longrightarrow> sub8 (sub8 n c) 1 = n - c - 1"
  by (simp add: sub8_small)

lemma IsBitSet_at: "length c < length k \<Longrightarrow> IsBitSet k (length k - length c - 1) = k ! length c"
  by (auto simp: IsBitSet_def)

lemma wft_length: "wft H T \<Longrightarrow> length (pkey T) \<le> H"
proof (induction T)
  case (PLeaf k v)
  then show ?case by simp
next
  case (PBranch k l r)
  then have "length (k @ [False]) \<le> length (pkey l)" "length (pkey l) \<le> H"
    by (auto dest: prefix_length_le)
  then show ?case by simp
qed

lemma wft_branch_length: "wft H (PBranch k l r) \<Longrightarrow> length k < H"
  using wft_length [of H l] by (auto dest!: prefix_length_le)

lemma pkey_in_pkeys [simp]: "pkey T \<in> pkeys T"
  by (cases T) auto

lemma wft_keys_prefix: "wft H T \<Longrightarrow> k \<in> pkeys T \<Longrightarrow> prefix (pkey T) k"
proof (induction T)
  case (PLeaf k' v)
  then show ?case by simp
next
  case (PBranch k' l r)
  show ?case
  proof (cases "k = k'")
    case True
    then show ?thesis by simp
  next
    case False
    then consider "k \<in> pkeys l" | "k \<in> pkeys r" using PBranch.prems by auto
    then show ?thesis
    proof cases
      case 1
      then have "prefix (pkey l) k" using PBranch by simp
      moreover have "prefix k' (pkey l)" using PBranch.prems(1) by (auto dest: append_prefixD)
      ultimately show ?thesis by (auto intro: prefix_order.trans)
    next
      case 2
      then have "prefix (pkey r) k" using PBranch by simp
      moreover have "prefix k' (pkey r)" using PBranch.prems(1) by (auto dest: append_prefixD)
      ultimately show ?thesis by (auto intro: prefix_order.trans)
    qed
  qed
qed

lemma wft_keys_length: "wft H T \<Longrightarrow> k \<in> pkeys T \<Longrightarrow> length k \<le> H"
proof (induction T)
  case (PLeaf k' v)
  then show ?case by simp
next
  case (PBranch k' l r)
  then show ?case using wft_branch_length [OF PBranch.prems(1)] by auto
qed

lemma logged_simps [simp]:
  "nodes (storage (logged t ops)) = nodes (storage t)"
  "root_slot (storage (logged t ops)) = root_slot (storage t)"
  "fault (storage (logged t ops)) = fault (storage t)"
  "trace (storage (logged t ops)) = trace (storage t) @ ops"
  "height (logged t ops) = height t" "rootKey (logged t ops) = rootKey t"
  "maxKey (logged t ops) = maxKey t" "hash (logged t ops) = hash t"
  "dirtyNodes (logged t ops) = dirtyNodes t" "rootKeyIsDirty (logged t ops) = rootKeyIsDirty t"
  by (simp_all add: logged_def)

lemma logged_Nil [simp]: "logged t [] = t"
  by (simp add: logged_def)

lemma logged_logged [simp]: "logged (logged t a) b = logged t (a @ b)"
  by (simp add: logged_def)

lemma reliable_logged [simp]: "reliable (storage (logged t ops)) = reliable (storage t)"
  by (simp add: reliable_def)

lemma reliable_Get:
  "reliable (storage t) \<Longrightarrow>
   storage_Get (storage t) k =
     (case nodes (storage t) k of None \<Rightarrow> Inl ErrKeyNotFound | Some n \<Rightarrow> Inr n,
      storage (logged t [OpGet k]))"
  by (simp add: storage_Get_def reliable_def logged_def Let_def split: option.splits)

lemma storage_logged [simp]: "t\<lparr>storage := storage (logged t ops)\<rparr> = logged t ops"
  by (simp add: logged_def)

lemma repr_root: "repr m T \<Longrightarrow> \<exists>n. m (pkey T) = Some n"
  by (cases T) auto

lemma repr_branch_node:
  "repr m (PBranch k l r) \<Longrightarrow> Left (the (m k)) = pkey l \<and> Right (the (m k)) = pkey r"
  by (auto simp: branchNode_def)

lemma wft_child_nonempty:
  "wft H (PBranch k l r) \<Longrightarrow> pkey l \<noteq> [] \<and> pkey r \<noteq> []"
  by auto

lemma descent_repr:
  assumes "reliable (storage t)" and "repr (nodes (storage t)) T" and "wft H T"
    and "length k = H" and "H < 256" and "nds = [] \<or> pkey T \<noteq> []"
  shows "nodesFromRoot_loop k (Some (pkey T)) nds t =
           Some (Inr (nds @ map (snode (nodes (storage t))) (ppath k T)),
                 logged t (map (OpGet \<circ> pkey) (ppath k T)))"
  using assms
proof (induction T arbitrary: nds t)
  case (PLeaf k' v)
  have len: "Len k' = Len k" using PLeaf.prems by (simp add: Len_def)
  show ?case
    using PLeaf.prems len
    by (subst nodesFromRoot_loop.simps)
       (auto simp: reliable_Get snode_def Let_def Len_def)
next
  case (PBranch k' l r)
  let ?m = "nodes (storage t)"
  obtain val where node: "?m k' = Some (branchNode val (pkey l) (pkey r))"
    using PBranch.prems(2) by auto
  let ?node = "branchNode val (pkey l) (pkey r)"
  let ?nds' = "nds @ [\<lparr>sn_key = k', sn_node = ?node\<rparr>]"
  let ?t' = "logged t [OpGet k']"
  have lt: "length k' < length k"
    using wft_branch_length [OF PBranch.prems(3)] PBranch.prems(4) by simp
  have first: "\<not> (0 < length nds \<and> Len k' = 0)"
    using PBranch.prems(6) by (auto simp: Len_def)
  have sn: "snode ?m (PBranch k' l r) = \<lparr>sn_key = k', sn_node = ?node\<rparr>"
    using node by (simp add: snode_def)
  show ?case
  proof (cases "prefix k' k")
    case False
    then show ?thesis
      using PBranch.prems(1) node first lt sn
      by (subst nodesFromRoot_loop.simps)
         (auto simp: reliable_Get Let_def Len_def isSubset_def)
  next
    case True
    have "sub8 (sub8 (Len k) (Len k')) 1 = length k - length k' - 1"
      unfolding Len_def by (rule bitpos) (use lt PBranch.prems(4,5) in auto)
    then have bit: "IsBitSet k (sub8 (sub8 (Len k) (Len k')) 1) = k ! length k'"
      using IsBitSet_at [OF lt] by simp
    have rel': "reliable (storage ?t')" using PBranch.prems(1) by simp
    have nds': "?nds' = [] \<or> pkey l \<noteq> []" "?nds' = [] \<or> pkey r \<noteq> []"
      using PBranch.prems(3) by auto
    have reprs: "repr (nodes (storage ?t')) l" "repr (nodes (storage ?t')) r"
      using PBranch.prems(2) by auto
    have wfs: "wft H l" "wft H r" using PBranch.prems(3) by auto
    note IHl = PBranch.IH(1) [OF rel' reprs(1) wfs(1) PBranch.prems(4,5) nds'(1)]
    note IHr = PBranch.IH(2) [OF rel' reprs(2) wfs(2) PBranch.prems(4,5) nds'(2)]
    have step: "nodesFromRoot_loop k (Some k') nds t =
      (if k ! length k' then nodesFromRoot_loop k (Some (pkey r)) ?nds' ?t'
       else nodesFromRoot_loop k (Some (pkey l)) ?nds' ?t')"
      using PBranch.prems(1) node first lt True bit
      by (subst nodesFromRoot_loop.simps)
         (auto simp: reliable_Get Let_def Len_def isSubset_def branchNode_def)
    show ?thesis
      using step IHl IHr True lt sn by (simp add: comp_def)
  qed
qed

lemma ppath_nonempty [simp]: "ppath k T \<noteq> []"
  by (cases T) auto

lemma ppath_hd: "hd (ppath k T) = T"
  by (cases T) auto

lemma ppath_keys: "S \<in> set (ppath k T) \<Longrightarrow> pkeys S \<subseteq> pkeys T"
  by (induction T) (auto split: if_splits)

lemma ppath_key_mem: "S \<in> set (ppath k T) \<Longrightarrow> pkey S \<in> pkeys T"
  using ppath_keys [of S k T] pkey_in_pkeys [of S] by blast

lemma ppath_last_key: "pkey (last (ppath k T)) \<in> pkeys T"
  using ppath_keys [of "last (ppath k T)" k T] pkey_in_pkeys [of "last (ppath k T)"]
  by (meson last_in_set ppath_nonempty subsetD)

lemma ppath_lengths:
  "wft H T \<Longrightarrow> sorted_wrt (\<lambda>a b. length (pkey a) < length (pkey b)) (ppath k T)"
proof (induction T)
  case (PLeaf k' v)
  then show ?case by simp
next
  case (PBranch k' l r)
  have "\<And>S. S \<in> set (ppath k l) \<Longrightarrow> length k' < length (pkey S)"
  proof -
    fix S assume "S \<in> set (ppath k l)"
    then have "pkey S \<in> pkeys l" using ppath_keys [of S k l] by auto
    then have "prefix (pkey l) (pkey S)" using PBranch.prems wft_keys_prefix [of H l] by auto
    then have "prefix (k' @ [False]) (pkey S)" using PBranch.prems by (auto intro: prefix_order.trans)
    then show "length k' < length (pkey S)" by (auto dest!: prefix_length_le)
  qed
  moreover have "\<And>S. S \<in> set (ppath k r) \<Longrightarrow> length k' < length (pkey S)"
  proof -
    fix S assume "S \<in> set (ppath k r)"
    then have "pkey S \<in> pkeys r" using ppath_keys [of S k r] by auto
    then have "prefix (pkey r) (pkey S)" using PBranch.prems wft_keys_prefix [of H r] by auto
    then have "prefix (k' @ [True]) (pkey S)" using PBranch.prems by (auto intro: prefix_order.trans)
    then show "length k' < length (pkey S)" by (auto dest!: prefix_length_le)
  qed
  ultimately show ?case using PBranch by auto
qed

text \<open>A key of full length that is stored in the tree is the key of the last tree of its search path,
  and that tree is a leaf.\<close>

lemma ppath_finds_leaf:
  assumes "wft H T" and "k \<in> pkeys T" and "length k = H"
  shows "\<exists>v. last (ppath k T) = PLeaf k v"
  using assms
proof (induction T)
  case (PLeaf k' v)
  then show ?case by simp
next
  case (PBranch k' l r)
  have lt: "length k' < length k"
    using wft_branch_length [OF PBranch.prems(1)] PBranch.prems(3) by simp
  then have ne: "k \<noteq> k'" by auto
  have pre: "prefix k' k"
    using wft_keys_prefix [OF PBranch.prems(1,2)] by simp
  from ne PBranch.prems(2) consider "k \<in> pkeys l" | "k \<in> pkeys r" by auto
  then show ?case
  proof cases
    case 1
    then have "prefix (k' @ [False]) k"
      using wft_keys_prefix [of H l k] PBranch.prems(1) by (auto intro: prefix_order.trans)
    then have "\<not> k ! length k'"
      by (auto simp: prefix_def nth_append)
    then show ?thesis using PBranch.IH(1) 1 PBranch.prems lt pre by auto
  next
    case 2
    then have "prefix (k' @ [True]) k"
      using wft_keys_prefix [of H r k] PBranch.prems(1) by (auto intro: prefix_order.trans)
    then have "k ! length k'"
      by (auto simp: prefix_def nth_append)
    then show ?thesis using PBranch.IH(2) 2 PBranch.prems lt pre by auto
  qed
qed

lemma storage_Get_logged:
  "storage_Get (storage t) k = (r, s') \<Longrightarrow> t\<lparr>storage := s'\<rparr> = logged t [OpGet k]"
  by (auto simp: storage_Get_def logged_def Let_def split: option.splits)

lemma nodesFromRoot_loop_reads:
  assumes "nodesFromRoot_loop key cur nds t = Some y"
  shows "\<exists>ops. snd y = logged t ops \<and> list_all isGet ops"
  using assms
proof (induction rule: nodesFromRoot_loop.raw_induct [rotated 1, consumes 1])
  case (1 loop key cur nds t y)
  have nil: "snd y = t \<Longrightarrow> ?case"
    by (rule exI [of _ "[]"]) simp
  show ?case
  proof (cases cur)
    case None
    then show ?thesis using 1(2) nil by auto
  next
    case (Some c)
    show ?thesis
    proof (cases "0 < length nds \<and> Len c = 0")
      case True
      then show ?thesis using 1(2) Some nil by auto
    next
      case False
      obtain g s1 where g: "storage_Get (storage t) c = (g, s1)"
        by (cases "storage_Get (storage t) c")
      note lg = storage_Get_logged [OF g]
      have one: "snd y = logged t [OpGet c] \<Longrightarrow> ?thesis"
        by (rule exI [of _ "[OpGet c]"]) simp
      show ?thesis
      proof (cases g)
        case (Inl e)
        then show ?thesis using 1(2) Some False g lg one by auto
      next
        case (Inr node)
        show ?thesis
        proof (cases "Len key \<le> Len c \<or> \<not> isSubset key c")
          case True
          then show ?thesis using 1(2) Some False g Inr lg one by (auto simp: Let_def)
        next
          case stop: False
          obtain nxt nds' where call: "loop key (Some nxt) nds' (logged t [OpGet c]) = Some y"
            using 1(2) Some False g Inr stop lg by (auto simp: Let_def split: if_splits)
          from 1(1) [OF call] obtain ops where
            "snd y = logged (logged t [OpGet c]) ops" "list_all isGet ops" by blast
          then show ?thesis
            by (intro exI [of _ "[OpGet c] @ ops"]) simp
        qed
      qed
    qed
  qed
qed

lemma Put_zero_absent_general:
  assumes absent: "nodes (storage t) (FeltToKey (height t) key) = None"
    and put: "Put t key 0 = Some (r, t')"
  shows "(\<exists>ops. t' = logged t ops \<and> list_all isGet ops) \<and> (r = Inr None \<or> (\<exists>e. r = Inl e))"
proof (cases "maxKey t < key")
  case True
  then have "t' = t" "r = Inl (KeyOutOfRange key (height t))"
    using put by (auto simp: Put_def)
  then show ?thesis by (auto intro: exI [of _ "[]"])
next
  case False
  let ?nodeKey = "FeltToKey (height t) key"
  have ul: "updateLeaf t ?nodeKey (leafNode 0) 0 = (Inr None, t)"
    by (simp add: updateLeaf_def)
  obtain r2 t2 where d: "nodesFromRoot t ?nodeKey = Some (r2, t2)"
    and rest: "(case r2 of
                Inl e \<Rightarrow> Some (Inl e, t2)
              | Inr nds \<Rightarrow>
                  if length nds = 0 then Some (handleEmptyTrie t2 0 ?nodeKey (leafNode 0) 0)
                  else
                    let sibling = nds ! (length nds - 1) in
                    (case deleteExistingKey t2 sibling ?nodeKey nds of
                       (Inl e, t3) \<Rightarrow> Some (Inl e, t3)
                     | (Inr (Some oldValue), t3) \<Rightarrow> Some (Inr (Some oldValue), t3)
                     | (Inr None, t3) \<Rightarrow>
                         if (0::Felt) = 0 then Some (Inr None, t3)
                         else
                           (case insertOrUpdateValue t3 ?nodeKey (leafNode 0) nds sibling False of
                              (Some e, t4) \<Rightarrow> Some (Inl e, t4)
                            | (None, t4) \<Rightarrow> Some (Inr (Some 0), t4)))) = Some (r, t')"
    using put False ul by (auto simp: Put_def Let_def split: Option.bind_splits)
  have rd: "\<exists>ops. t2 = logged t ops \<and> list_all isGet ops"
    using nodesFromRoot_loop_reads [OF d [unfolded nodesFromRoot_def]] by simp
  have dp: "\<And>nds. r2 = Inr nds \<Longrightarrow> \<forall>n \<in> set nds. nodes (storage t) (sn_key n) = Some (sn_node n)"
    using nodesFromRoot_loop_props [OF d [unfolded nodesFromRoot_def]] by auto
  show ?thesis
  proof (cases r2)
    case (Inl e)
    then show ?thesis using rest rd by auto
  next
    case (Inr nds)
    show ?thesis
    proof (cases "length nds = 0")
      case True
      then show ?thesis using rest Inr rd by (auto simp: handleEmptyTrie_def)
    next
      case False
      let ?sib = "nds ! (length nds - 1)"
      have "?sib \<in> set nds" using False by simp
      then have "nodes (storage t) (sn_key ?sib) = Some (sn_node ?sib)"
        using dp [OF Inr] by blast
      then have ne: "?nodeKey \<noteq> sn_key ?sib" using absent by auto
      show ?thesis
        using rest Inr False rd deleteExistingKey_other [OF ne, of t2 nds]
        by (auto simp: Let_def)
    qed
  qed
qed

lemma length_FeltToKey [simp]: "length (FeltToKey h k) = h"
  by (simp add: FeltToKey_def)

lemma INV_descent:
  assumes "INV t" and "length k = height t"
  shows "(rootKey t = None \<and> nodesFromRoot t k = Some (Inr [], t)) \<or>
         (\<exists>T. rootKey t = Some (pkey T) \<and> wft (height t) T \<and> repr (nodes (storage t)) T \<and>
               dom (nodes (storage t)) = pkeys T \<and>
               clean (nodes (storage t)) (hash t) (dirtyNodes t) T \<and>
               nodesFromRoot t k =
                 Some (Inr (map (snode (nodes (storage t))) (ppath k T)),
                       logged t (map (OpGet \<circ> pkey) (ppath k T))))"
proof (cases "rootKey t")
  case None
  then show ?thesis
    by (simp add: nodesFromRoot_def nodesFromRoot_loop.simps)
next
  case (Some rk)
  then obtain T where T: "pkey T = rk" "wft (height t) T" "repr (nodes (storage t)) T"
    "dom (nodes (storage t)) = pkeys T" "clean (nodes (storage t)) (hash t) (dirtyNodes t) T"
    using assms(1) by (auto simp: INV_def)
  have rel: "reliable (storage t)" and h: "height t < 256"
    using assms(1) by (auto simp: INV_def)
  have "nodesFromRoot t k =
          Some (Inr ([] @ map (snode (nodes (storage t))) (ppath k T)),
                logged t (map (OpGet \<circ> pkey) (ppath k T)))"
    unfolding nodesFromRoot_def Some T(1) [symmetric]
    by (rule descent_repr [OF rel T(3) T(2) assms(2) h]) simp
  then show ?thesis using T Some by auto
qed



lemma reliable_upd [simp]:
  "reliable (s\<lparr>trace := tr\<rparr>) = reliable s"
  "reliable (s\<lparr>nodes := m\<rparr>) = reliable s"
  "reliable (s\<lparr>root_slot := rs\<rparr>) = reliable s"
  by (simp_all add: reliable_def)


lemma ppath_step:
  "ppath k T = xs @ A # B # ys \<Longrightarrow> \<exists>p l r. A = PBranch p l r \<and> (B = l \<or> B = r)"
proof (induction T arbitrary: xs)
  case (PLeaf k' v)
  then show ?case by (cases xs) auto
next
  case (PBranch k' l r)
  let ?rest = "if length k \<le> length k' \<or> \<not> prefix k' k then []
        else if k ! length k' then ppath k r else ppath k l"
  have eq: "PBranch k' l r # ?rest = xs @ A # B # ys" using PBranch.prems by simp
  show ?case
  proof (cases xs)
    case Nil
    then have A: "A = PBranch k' l r" and r: "?rest = B # ys" using eq by auto
    have "B = l \<or> B = r"
      using r ppath_hd [of k l] ppath_hd [of k r] by (auto split: if_splits)
    then show ?thesis using A by blast
  next
    case (Cons x xs')
    then have r: "?rest = xs' @ A # B # ys" using eq by auto
    then show ?thesis using PBranch.IH by (auto split: if_splits)
  qed
qed

lemma ppath_wft: "wft H T \<Longrightarrow> S \<in> set (ppath k T) \<Longrightarrow> wft H S"
  by (induction T) (auto split: if_splits)

lemma ppath_repr: "repr m T \<Longrightarrow> S \<in> set (ppath k T) \<Longrightarrow> repr m S"
  by (induction T) (auto split: if_splits)

lemma butlast_last_split:
  "2 \<le> length xs \<Longrightarrow> xs = take (length xs - 2) xs @ xs ! (length xs - 2) # last xs # []"
proof -
  assume l: "2 \<le> length xs"
  have "xs = take (length xs - 2) xs @ drop (length xs - 2) xs" by simp
  moreover have "drop (length xs - 2) xs = [xs ! (length xs - 2), xs ! (length xs - 1)]"
  proof -
    have a: "drop (length xs - 2) xs = xs ! (length xs - 2) # drop (Suc (length xs - 2)) xs"
      using l by (intro Cons_nth_drop_Suc [symmetric]) arith
    have s: "Suc (length xs - 2) = length xs - 1" using l by arith
    have b: "drop (length xs - 1) xs = xs ! (length xs - 1) # drop (Suc (length xs - 1)) xs"
      using l by (intro Cons_nth_drop_Suc [symmetric]) arith
    show ?thesis using a b s l by simp
  qed
  moreover have "xs ! (length xs - 1) = last xs"
    using l by (intro last_conv_nth [symmetric]) auto
  ultimately show ?thesis by metis
qed

lemma sorted_wrt_nth_less:
  "sorted_wrt P xs \<Longrightarrow> i < j \<Longrightarrow> j < length xs \<Longrightarrow> P (xs ! i) (xs ! j)"
  by (simp add: sorted_wrt_iff_nth_less)

lemma Get_absent:
  assumes "reliable (storage t)" and "nodes (storage t) (FeltToKey (height t) key) = None"
  shows "fst (Get t key) = Inr 0"
  using assms by (simp add: Get_def storage_Get_def reliable_def Let_def)

lemmas tree_eval =
  hashAt_def path_def Truncate_def sub8_def Len_def Key_Felt_def toyHash_def branchNode_def
  leafNode_def NilKey_def

lemma INV_tempTrie: "h < 256 \<Longrightarrow> INV (tempTrie h)"
  by (simp add: INV_def tempTrie_def newMemStorage_def reliable_def)

lemma INV_leafTrie: "INV leafTrie"
  unfolding INV_def
  by (simp add: leafTrie_def reliable_def) (rule exI [of _ "PLeaf [False, True] 42"], simp)

lemma INV_twoTrie: "INV twoTrie"
  unfolding INV_def
  apply (simp add: twoTrie_def reliable_def)
  apply (rule exI [of _ "PBranch [] (PLeaf [False, True] 42) (PLeaf [True, False] 8)"])
  apply (simp add: tree_eval)
  apply auto
  done

lemma INV_threeTrie: "INV threeTrie"
  unfolding INV_def
  apply (simp add: threeTrie_def reliable_def)
  apply (rule exI [of _ "PBranch [] (PBranch [False] (PLeaf [False, False] 7) (PLeaf [False, True] 42))
                                   (PLeaf [True, False] 8)"])
  apply (simp add: tree_eval)
  apply auto
  done

lemma descent_fact:
  assumes "case nodesFromRoot t k of Some (Inr nds, t2) \<Rightarrow> nds = xs | _ \<Rightarrow> False"
    and "nodesFromRoot t k = Some (Inr nds, t2)"
  shows "nds = xs"
  using assms by simp


section \<open>The list returned by the descent, and deleteLast on any backend\<close>








lemma deleteLast_err_or_ok:
  "\<exists>r t'. deleteLast t nds = (r, t')"
  by (cases "deleteLast t nds") simp

section \<open>Two passes of the commitment recursion\<close>

lemma mustUpdate_mustUpd: "mustUpdate t node key = mustUpd (height t) (dirtyNodes t) node key"
  by (simp add: mustUpdate_def mustUpd_def)

lemma mustUpd_Value [simp]: "mustUpd H D (node\<lparr>Value := v\<rparr>) k = mustUpd H D node k"
  by (simp add: mustUpd_def)

lemma mustUpd_clean: "mustUpd H [] node k = (Len k \<noteq> H \<and> oneNil node)"
  by (auto simp: mustUpd_def oneNil_def)

lemma mustUpd_oneNil: "oneNil node \<Longrightarrow> Len k \<noteq> H \<Longrightarrow> mustUpd H D node k"
  by (auto simp: mustUpd_def oneNil_def)

lemma evalNode_weaken:
  "evalNode h H D m P k n \<Longrightarrow> (\<And>k n. P k n \<Longrightarrow> Q k n) \<Longrightarrow> evalNode h H D m Q k n"
proof (induction rule: evalNode.induct)
  case (Keep k node)
  then show ?case by (auto intro: evalNode.Keep)
next
  case (Rec k node lh rh)
  show ?case
    apply (rule evalNode.Rec [where m = m and k = k and node = node and lh = lh and rh = rh
          and h = h])
    using Rec.hyps(1) apply simp
    using Rec.hyps(2) apply simp
    using Rec.IH(1) Rec.prems apply blast
    using Rec.IH(2) Rec.prems apply blast
    using Rec.hyps(3) Rec.prems apply blast
    done
qed

lemma evalNode_holds: "evalNode h H D m P k n \<Longrightarrow> P k n"
  by (induction rule: evalNode.induct) auto

lemma evalNode_shape:
  "evalNode h H D m P k n \<Longrightarrow> \<exists>node. m k = Some node \<and> n = node\<lparr>Value := Value n\<rparr>"
  by (induction rule: evalNode.induct) auto

lemma evalNode_det:
  "evalNode h H D m P k n \<Longrightarrow> evalNode h H D m Q k n' \<Longrightarrow> n' = n"
proof (induction arbitrary: n' rule: evalNode.induct)
  case (Keep k node)
  from Keep.prems Keep.hyps show ?case
    by (cases rule: evalNode.cases) auto
next
  case (Rec k node lh rh)
  from Rec.prems show ?case
  proof (cases rule: evalNode.cases)
    case (Keep)
    then show ?thesis using Rec.hyps by auto
  next
    case (Rec node' lh' rh')
    have nn: "node' = node" using Rec(2) Rec.hyps(1) by simp
    have "lh' = lh" using Rec(4) Rec.IH(1) nn by auto
    moreover have "rh' = rh" using Rec(5) Rec.IH(2) nn by auto
    ultimately show ?thesis using Rec(1) nn by simp
  qed
qed

lemma evalNode_strengthen:
  assumes "evalNode h H D m P k n"
    and "\<And>k n. P k n \<Longrightarrow> evalNode h H D m (\<lambda>_ _. True) k n \<Longrightarrow> Q k n"
  shows "evalNode h H D m Q k n"
  using assms
proof (induction rule: evalNode.induct)
  case (Keep k node)
  have "evalNode h H D m (\<lambda>_ _. True) k node"
    using Keep.hyps(1,2) by (rule evalNode.Keep) simp
  then have "Q k node" using Keep by blast
  then show ?case using Keep.hyps(1,2) by (intro evalNode.Keep)
next
  case (Rec k node lh rh)
  have E: "evalNode h H D m (\<lambda>_ _. True) k (node\<lparr>Value := h lh rh\<rparr>)"
    apply (rule evalNode.Rec [where m = m and k = k and node = node and lh = lh and rh = rh
          and h = h])
    using Rec.hyps(1) apply simp
    using Rec.hyps(2) apply simp
    using Rec.IH(1) apply (blast intro: evalNode_weaken)
    using Rec.IH(2) apply (blast intro: evalNode_weaken)
    apply simp
    done
  have Q: "Q k (node\<lparr>Value := h lh rh\<rparr>)" using Rec.prems Rec.hyps(3) E by blast
  show ?case
    apply (rule evalNode.Rec [where m = m and k = k and node = node and lh = lh and rh = rh
          and h = h])
    using Rec.hyps(1) apply simp
    using Rec.hyps(2) apply simp
    using Rec.IH(1) Rec.prems apply blast
    using Rec.IH(2) Rec.prems apply blast
    using Q apply simp
    done
qed

lemma grows_refl [simp]: "grows h H D m a a"
  by (simp add: grows_def)

lemma grows_trans: "grows h H D m a b \<Longrightarrow> grows h H D m b c \<Longrightarrow> grows h H D m a c"
  unfolding grows_def by metis

lemma grows_upd:
  "evalNode h H D m (\<lambda>_ _. True) k n \<Longrightarrow> grows h H D m a (a(k \<mapsto> n))"
  by (auto simp: grows_def)

lemma evalNode_grow:
  assumes "evalNode h H D m (\<lambda>k n. a k = Some n) k n" and g: "grows h H D m a b"
  shows "evalNode h H D m (\<lambda>k n. b k = Some n) k n"
  using assms(1)
proof (rule evalNode_strengthen)
  fix k n assume a: "a k = Some n" and E: "evalNode h H D m (\<lambda>_ _. True) k n"
  from g have "b k = a k \<or> (\<exists>n'. evalNode h H D m (\<lambda>_ _. True) k n' \<and> b k = Some n')"
    by (simp add: grows_def)
  then show "b k = Some n"
  proof
    assume "b k = a k" then show ?thesis using a by simp
  next
    assume "\<exists>n'. evalNode h H D m (\<lambda>_ _. True) k n' \<and> b k = Some n'"
    then obtain n' where n': "evalNode h H D m (\<lambda>_ _. True) k n'" "b k = Some n'" by blast
    have "n' = n" using evalNode_det [OF E n'(1)] .
    then show ?thesis using n'(2) by simp
  qed
qed

lemma same_frame_params:
  "same_frame a b \<Longrightarrow> hash b = hash a \<and> height b = height a \<and> dirtyNodes b = dirtyNodes a \<and>
     rootKey b = rootKey a \<and> rootKeyIsDirty b = rootKeyIsDirty a \<and> maxKey b = maxKey a"
  by (cases a, cases b) (simp add: same_frame_def)

lemma pass_grows_refl: "pass_grows a a"
  by (simp add: pass_grows_def)

lemma pass_grows_trans: "pass_grows a b \<Longrightarrow> pass_grows b c \<Longrightarrow> pass_grows a c"
proof -
  assume ab: "pass_grows a b" and bc: "pass_grows b c"
  have sf: "same_frame a b" "same_frame b c" using ab bc by (auto simp: pass_grows_def)
  note p = same_frame_params [OF sf(1)]
  show ?thesis
    unfolding pass_grows_def
  proof (intro conjI allI impI)
    show "same_frame a c" using sf by (rule same_frame_trans)
  next
    fix m assume G: "grows (hash a) (height a) (dirtyNodes a) m m (nodes (storage a))"
    have 1: "grows (hash a) (height a) (dirtyNodes a) m (nodes (storage a)) (nodes (storage b))"
      using ab G by (simp add: pass_grows_def)
    have "grows (hash a) (height a) (dirtyNodes a) m m (nodes (storage b))"
      by (rule grows_trans [OF G 1])
    then have 2: "grows (hash a) (height a) (dirtyNodes a) m (nodes (storage b)) (nodes (storage c))"
      using bc p by (simp add: pass_grows_def)
    show "grows (hash a) (height a) (dirtyNodes a) m (nodes (storage a)) (nodes (storage c))"
      by (rule grows_trans [OF 1 2])
  qed
qed

lemma pass_grows_storage:
  "nodes s = nodes (storage a) \<Longrightarrow> pass_grows a (a\<lparr>storage := s\<rparr>)"
  by (simp add: pass_grows_def)

lemma pass_grows_storage2:
  "pass_grows a b \<Longrightarrow> nodes s = nodes (storage b) \<Longrightarrow> pass_grows a (b\<lparr>storage := s\<rparr>)"
  by (rule pass_grows_trans [OF _ pass_grows_storage])

lemma storage_Get_nodes: "storage_Get s k = (r, s') \<Longrightarrow> nodes s' = nodes s"
  by (auto simp: storage_Get_def Let_def split: option.splits)

lemma storage_Put_err_nodes: "storage_Put s k n = (Some e, s') \<Longrightarrow> nodes s' = nodes s"
  by (auto simp: storage_Put_def Let_def split: option.splits)

lemma child_pass:
  assumes IH: "\<forall>t k y. upd t k = Some y \<longrightarrow> pass_ok t k y"
    and ch: "updateChild upd ta ck (ck = NilKey) = Some (Inr c, tb)"
    and G: "grows (hash ta) (height ta) (dirtyNodes ta) m m (nodes (storage ta))"
  shows "(ck = NilKey \<and> c = None) \<or>
         (ck \<noteq> NilKey \<and>
          (\<exists>c'. c = Some c' \<and>
             evalNode (hash ta) (height ta) (dirtyNodes ta) m
               (\<lambda>k n. nodes (storage tb) k = Some n) ck c'))"
  using ch
proof (cases rule: updateChild_cases)
  case Proof
  then show ?thesis by simp
next
  case (Call rn)
  then obtain c' where rn: "rn = Inr c'" "c = Some c'" by (cases rn) auto
  have "pass_ok ta ck (Inr c', tb)" using IH Call(2) rn by blast
  then show ?thesis using G Call(1) rn by (simp add: pass_ok_def)
qed

lemma updateValueIfDirty_pass:
  assumes "updateValueIfDirty t key = Some y"
  shows "pass_ok t key y"
  using assms
proof (induction rule: updateValueIfDirty_induct)
  case (GetErr t key e s1)
  then show ?case
    by (simp add: pass_ok_def pass_grows_storage storage_Get_nodes)
next
  case (Keep t key node s1)
  note gp = storage_Get_props [OF Keep(1)]
  have nd: "nodes (storage t) key = Some node" using gp(2) by simp
  have ns: "nodes s1 = nodes (storage t)" using Keep(1) by (rule storage_Get_nodes)
  have mu: "\<not> mustUpd (height t) (dirtyNodes t) node key"
    using Keep(2) by (simp add: mustUpdate_mustUpd)
  show ?case
    unfolding pass_ok_def
  proof (intro conjI allI impI)
    show "pass_grows t (snd (Inr node, t\<lparr>storage := s1\<rparr>))"
      using ns by (simp add: pass_grows_storage)
  next
    fix m n
    assume G: "grows (hash t) (height t) (dirtyNodes t) m m (nodes (storage t))"
      and "fst (Inr node, t\<lparr>storage := s1\<rparr>) = Inr n"
    then have n: "n = node" by simp
    have "nodes (storage t) key = m key \<or>
          (\<exists>n'. evalNode (hash t) (height t) (dirtyNodes t) m (\<lambda>_ _. True) key n' \<and>
                nodes (storage t) key = Some n')"
      using G by (simp add: grows_def)
    then have mk: "m key = Some node"
    proof
      assume "nodes (storage t) key = m key" then show ?thesis using nd by simp
    next
      assume "\<exists>n'. evalNode (hash t) (height t) (dirtyNodes t) m (\<lambda>_ _. True) key n' \<and>
                nodes (storage t) key = Some n'"
      then have E: "evalNode (hash t) (height t) (dirtyNodes t) m (\<lambda>_ _. True) key node"
        using nd by auto
      from E mu show ?thesis by (cases rule: evalNode.cases) auto
    qed
    show "evalNode (hash t) (height t) (dirtyNodes t) m
            (\<lambda>k n. nodes (storage (snd (Inr node, t\<lparr>storage := s1\<rparr>))) k = Some n) key n"
      unfolding n using mk mu by (rule evalNode.Keep) (simp add: ns nd)
  qed
next
  case (Rec upd t key node s1 r t2)
  let ?h = "hash t" and ?H = "height t" and ?D = "dirtyNodes t"
  let ?t1 = "t\<lparr>storage := s1\<rparr>"
  note gp = storage_Get_props [OF Rec.hyps(1)]
  have nd: "nodes (storage t) key = Some node" using gp(2) by simp
  have ns: "nodes s1 = nodes (storage t)" using Rec.hyps(1) by (rule storage_Get_nodes)
  have mu: "mustUpd ?H ?D node key" using Rec.hyps(2) by (simp add: mustUpdate_mustUpd)
  have IH': "\<forall>t k y. upd t k = Some y \<longrightarrow> pass_ok t k y" using Rec.IH by blast
  have IHg: "\<forall>t k y. upd t k = Some y \<longrightarrow> pass_grows t (snd y)"
    using IH' by (simp add: pass_ok_def)
  have tr: "\<forall>a b c. pass_grows a b \<longrightarrow> pass_grows b c \<longrightarrow> pass_grows a c"
    using pass_grows_trans by blast
  have rf: "\<forall>a. pass_grows a a" using pass_grows_refl by blast
  have g12: "pass_grows ?t1 t2"
    by (rule updateChildren_rel [OF IHg rf tr Rec.hyps(3)])
  have g02: "pass_grows t t2"
    by (rule pass_grows_trans [OF pass_grows_storage [OF ns] g12])
  have sf2: "same_frame t t2" using g02 by (simp add: pass_grows_def)
  note p2 = same_frame_params [OF sf2]
  let ?y = "finishUpdate t key node r t2"
  have gfin: "pass_grows t2 (snd ?y) \<or>
     (\<exists>cl cr lh rh s3. r = Inr (cl, cr) \<and>
        childHash t key (Left node) (LeftHash node) cl = Some lh \<and>
        childHash t key (Right node) (RightHash node) cr = Some rh \<and>
        storage_Put (storage t2) key (node\<lparr>Value := ?h lh rh\<rparr>) = (None, s3) \<and>
        ?y = (Inr (node\<lparr>Value := ?h lh rh\<rparr>), t2\<lparr>storage := s3\<rparr>))"
    by (auto simp: finishUpdate_def pass_grows_storage pass_grows_refl storage_Put_err_nodes
        split: sum.splits option.splits prod.splits)
  show ?case
  proof (cases "\<exists>n. fst ?y = Inr n")
    case False
    then have "pass_grows t2 (snd ?y)" using gfin by auto
    then have "pass_grows t (snd ?y)" by (rule pass_grows_trans [OF g02])
    then show ?thesis using False by (simp add: pass_ok_def)
  next
    case True
    then obtain cl cr lh rh s3 where r: "r = Inr (cl, cr)"
      and lh: "childHash t key (Left node) (LeftHash node) cl = Some lh"
      and rh: "childHash t key (Right node) (RightHash node) cr = Some rh"
      and put: "storage_Put (storage t2) key (node\<lparr>Value := ?h lh rh\<rparr>) = (None, s3)"
      and y: "?y = (Inr (node\<lparr>Value := ?h lh rh\<rparr>), t2\<lparr>storage := s3\<rparr>)"
      by (auto simp: finishUpdate_def split: sum.splits option.splits prod.splits)
    let ?n = "node\<lparr>Value := ?h lh rh\<rparr>"
    have ns3: "nodes s3 = (nodes (storage t2))(key \<mapsto> ?n)"
      using put by (rule storage_Put_ok_nodes)
    from Rec.hyps(3) r obtain tl where
      L: "updateChild upd ?t1 (Left node) (Left node = NilKey) = Some (Inr cl, tl)" and
      R: "updateChild upd tl (Right node) (Right node = NilKey) = Some (Inr cr, t2)"
      by (cases rule: updateChildren_cases) auto
    have g1l: "pass_grows ?t1 tl"
      by (rule updateChild_rel [OF IHg rf L])
    have gl2: "pass_grows tl t2"
      by (rule updateChild_rel [OF IHg rf R])
    have sfl: "same_frame t tl"
      using g1l by (auto simp: pass_grows_def intro: same_frame_trans [OF same_frame_storage])
    note pl = same_frame_params [OF sfl]
    have main: "grows ?h ?H ?D m (nodes (storage t)) (nodes s3) \<and>
                evalNode ?h ?H ?D m (\<lambda>k n. nodes s3 k = Some n) key ?n"
      if G: "grows ?h ?H ?D m m (nodes (storage t))" for m
    proof -
      have G1: "grows ?h ?H ?D m m (nodes (storage ?t1))" using G ns by simp
      have a1l: "grows ?h ?H ?D m (nodes (storage ?t1)) (nodes (storage tl))"
        using g1l G1 by (simp add: pass_grows_def)
      have Gl: "grows ?h ?H ?D m m (nodes (storage tl))"
        by (rule grows_trans [OF G1 a1l])
      have al2: "grows ?h ?H ?D m (nodes (storage tl)) (nodes (storage t2))"
        using gl2 Gl pl by (simp add: pass_grows_def)
      have G2: "grows ?h ?H ?D m m (nodes (storage t2))"
        by (rule grows_trans [OF Gl al2])
      have a02: "grows ?h ?H ?D m (nodes (storage t)) (nodes (storage t2))"
        using grows_trans [OF a1l al2] ns by simp
      have cL: "(Left node = NilKey \<and> cl = None) \<or>
         (Left node \<noteq> NilKey \<and>
          (\<exists>c'. cl = Some c' \<and>
             evalNode ?h ?H ?D m (\<lambda>k n. nodes (storage tl) k = Some n) (Left node) c'))"
        using child_pass [OF IH' L] G1 by simp
      have cR: "(Right node = NilKey \<and> cr = None) \<or>
         (Right node \<noteq> NilKey \<and>
          (\<exists>c'. cr = Some c' \<and>
             evalNode ?h ?H ?D m (\<lambda>k n. nodes (storage t2) k = Some n) (Right node) c'))"
        using child_pass [OF IH' R] Gl pl by simp
      have eL: "(Left node = NilKey \<and> LeftHash node = Some lh) \<or>
        (Left node \<noteq> NilKey \<and>
         (\<exists>c. evalNode ?h ?H ?D m (\<lambda>k n. nodes (storage t2) k = Some n) (Left node) c \<and>
              lh = Node_Hash c (path (Left node) (Some key)) ?h))"
        using cL lh by (auto simp: childHash_def intro: evalNode_grow [OF _ al2])
      have eR: "(Right node = NilKey \<and> RightHash node = Some rh) \<or>
        (Right node \<noteq> NilKey \<and>
         (\<exists>c. evalNode ?h ?H ?D m (\<lambda>k n. nodes (storage t2) k = Some n) (Right node) c \<and>
              rh = Node_Hash c (path (Right node) (Some key)) ?h))"
        using cR rh by (auto simp: childHash_def)
      have "nodes (storage t) key = m key \<or>
          (\<exists>n'. evalNode ?h ?H ?D m (\<lambda>_ _. True) key n' \<and> nodes (storage t) key = Some n')"
        using G by (simp add: grows_def)
      then obtain node0 where mk: "m key = Some node0" and n0: "node = node0\<lparr>Value := Value node\<rparr>"
      proof
        assume "nodes (storage t) key = m key"
        then show ?thesis using nd that [of node] by simp
      next
        assume "\<exists>n'. evalNode ?h ?H ?D m (\<lambda>_ _. True) key n' \<and> nodes (storage t) key = Some n'"
        then have "evalNode ?h ?H ?D m (\<lambda>_ _. True) key node" using nd by auto
        from evalNode_shape [OF this] show ?thesis using that by blast
      qed
      have links: "Left node0 = Left node" "Right node0 = Right node"
        "LeftHash node0 = LeftHash node" "RightHash node0 = RightHash node"
        "node0\<lparr>Value := ?h lh rh\<rparr> = ?n"
        by (subst n0, simp)+
      have mu0: "mustUpd ?H ?D node0 key"
        using mu by (subst (asm) n0) simp
      have E: "evalNode ?h ?H ?D m (\<lambda>_ _. True) key ?n"
        unfolding links(5) [symmetric]
        apply (rule evalNode.Rec [where m = m and k = key and node = node0 and lh = lh
              and rh = rh and h = "?h"])
        using mk apply simp
        using mu0 apply simp
        using eL links apply (auto intro: evalNode_weaken) [1]
        using eR links apply (auto intro: evalNode_weaken) [1]
        apply simp
        done
      have up: "grows ?h ?H ?D m (nodes (storage t2)) (nodes s3)"
        unfolding ns3 using E by (rule grows_upd)
      have a03: "grows ?h ?H ?D m (nodes (storage t)) (nodes s3)"
        by (rule grows_trans [OF a02 up])
      have eL3: "(Left node = NilKey \<and> LeftHash node = Some lh) \<or>
        (Left node \<noteq> NilKey \<and>
         (\<exists>c. evalNode ?h ?H ?D m (\<lambda>k n. nodes s3 k = Some n) (Left node) c \<and>
              lh = Node_Hash c (path (Left node) (Some key)) ?h))"
        using eL by (auto intro: evalNode_grow [OF _ up])
      have eR3: "(Right node = NilKey \<and> RightHash node = Some rh) \<or>
        (Right node \<noteq> NilKey \<and>
         (\<exists>c. evalNode ?h ?H ?D m (\<lambda>k n. nodes s3 k = Some n) (Right node) c \<and>
              rh = Node_Hash c (path (Right node) (Some key)) ?h))"
        using eR by (auto intro: evalNode_grow [OF _ up])
      have EV: "evalNode ?h ?H ?D m (\<lambda>k n. nodes s3 k = Some n) key ?n"
        unfolding links(5) [symmetric]
        apply (rule evalNode.Rec [where m = m and k = key and node = node0 and lh = lh
              and rh = rh and h = "?h"])
        using mk apply simp
        using mu0 apply simp
        using eL3 links apply simp
        using eR3 links apply simp
        using links(5) ns3 apply simp
        done
      show ?thesis using a03 EV by simp
    qed
    show ?thesis
      unfolding y pass_ok_def pass_grows_def
      using main sf2 by (auto intro: same_frame_storage2)
  qed
qed

lemma quiet_refl [simp]: "quiet a a"
  by (simp add: quiet_def)

lemma quiet_trans: "quiet a b \<Longrightarrow> quiet b c \<Longrightarrow> quiet a c"
  unfolding quiet_def
  by (auto intro: same_frame_trans)

lemma quiet_Get: "storage_Get (storage t) k = (r, s1) \<Longrightarrow> quiet t (t\<lparr>storage := s1\<rparr>)"
  by (auto simp: quiet_def storage_Get_def Let_def split: option.splits)

lemma quiet_Put:
  "storage_Put (storage t) k n = (r, s1) \<Longrightarrow> nodes (storage t) k = Some n \<Longrightarrow> oneNil n \<Longrightarrow>
   quiet t (t\<lparr>storage := s1\<rparr>)"
  by (auto simp: quiet_def storage_Put_def Let_def map_upd_triv split: option.splits)

lemma quiet_params:
  "quiet a b \<Longrightarrow> hash b = hash a \<and> height b = height a \<and> dirtyNodes b = dirtyNodes a \<and>
     nodes (storage b) = nodes (storage a)"
  using same_frame_params [of a b] by (simp add: quiet_def)

lemma child_quiet:
  assumes IH: "\<forall>t k y. upd t k = Some y \<longrightarrow> pass2 t k y"
    and ch: "updateChild upd ta ck (ck = NilKey) = Some (rc, tb)"
    and D: "dirtyNodes ta = []"
    and ev: "ck \<noteq> NilKey \<longrightarrow>
             evalNode (hash ta) (height ta) D1 m (\<lambda>k n. nodes (storage ta) k = Some n) ck c"
  shows "quiet ta tb \<and>
         (\<forall>x. rc = Inr x \<longrightarrow> (ck = NilKey \<and> x = None) \<or> (ck \<noteq> NilKey \<and> x = Some c))"
  using ch
proof (cases rule: updateChild_cases)
  case Proof
  then show ?thesis by simp
next
  case (Call rn)
  have "pass2 ta ck (rn, tb)" using IH Call(2) by blast
  then have "quiet ta tb \<and> (\<forall>n2. rn = Inr n2 \<longrightarrow> n2 = c)"
    using D ev Call(1) unfolding pass2_def by fastforce
  then show ?thesis using Call(1,3) by (cases rn) auto
qed

lemma finishUpdate_err:
  "r = Inl e \<Longrightarrow> finishUpdate t key node r t2 = (Inl e, t2)"
  by (simp add: finishUpdate_def)

lemma updateValueIfDirty_pass2:
  assumes "updateValueIfDirty t key = Some y"
  shows "pass2 t key y"
  using assms
proof (induction rule: updateValueIfDirty_induct)
  case (GetErr t key e s1)
  then show ?case by (simp add: pass2_def quiet_Get)
next
  case (Keep t key node s1)
  note gp = storage_Get_props [OF Keep(1)]
  have nd: "nodes (storage t) key = Some node" using gp(2) by simp
  show ?case
    unfolding pass2_def
  proof (intro impI allI)
    fix D m n
    assume "evalNode (hash t) (height t) D m (\<lambda>k n. nodes (storage t) k = Some n) key n"
    then have "nodes (storage t) key = Some n" by (rule evalNode_holds)
    then have "n = node" using nd by simp
    then show "quiet t (snd (Inr node, t\<lparr>storage := s1\<rparr>)) \<and>
               (\<forall>n2. fst (Inr node, t\<lparr>storage := s1\<rparr>) = Inr n2 \<longrightarrow> n2 = n)"
      using quiet_Get [OF Keep(1)] by simp
  qed
next
  case (Rec upd t key node s1 r t2)
  let ?h = "hash t" and ?H = "height t"
  let ?t1 = "t\<lparr>storage := s1\<rparr>"
  note gp = storage_Get_props [OF Rec.hyps(1)]
  have nd: "nodes (storage t) key = Some node" using gp(2) by simp
  have q01: "quiet t ?t1" using Rec.hyps(1) by (rule quiet_Get)
  have IH': "\<forall>t k y. upd t k = Some y \<longrightarrow> pass2 t k y" using Rec.IH by blast
  let ?y = "finishUpdate t key node r t2"
  show ?case
    unfolding pass2_def
  proof (intro impI allI)
    fix D m n
    assume D0: "dirtyNodes t = []"
      and ev: "evalNode ?h ?H D m (\<lambda>k n. nodes (storage t) k = Some n) key n"
    have "nodes (storage t) key = Some n" using ev by (rule evalNode_holds)
    then have nn: "n = node" using nd by simp
    have mu: "Len key \<noteq> ?H \<and> oneNil node"
      using Rec.hyps(2) D0 by (simp add: mustUpdate_mustUpd mustUpd_clean)
    from ev obtain node0 lh rh where
      mk: "m key = Some node0" and n0: "node = node0\<lparr>Value := ?h lh rh\<rparr>"
      and eL: "(Left node0 = NilKey \<and> LeftHash node0 = Some lh) \<or>
        (Left node0 \<noteq> NilKey \<and>
         (\<exists>c. evalNode ?h ?H D m (\<lambda>k n. nodes (storage t) k = Some n) (Left node0) c \<and>
              lh = Node_Hash c (path (Left node0) (Some key)) ?h))"
      and eR: "(Right node0 = NilKey \<and> RightHash node0 = Some rh) \<or>
        (Right node0 \<noteq> NilKey \<and>
         (\<exists>c. evalNode ?h ?H D m (\<lambda>k n. nodes (storage t) k = Some n) (Right node0) c \<and>
              rh = Node_Hash c (path (Right node0) (Some key)) ?h))"
    proof (cases rule: evalNode.cases)
      case Keep
      then have "\<not> mustUpd ?H D node key" using nn by simp
      then show ?thesis using mu mustUpd_oneNil by blast
    next
      case (Rec node0 lh rh)
      then show ?thesis using that [of node0 lh rh] nn by simp
    qed
    have links: "Left node0 = Left node" "Right node0 = Right node"
      "LeftHash node0 = LeftHash node" "RightHash node0 = RightHash node"
      "node\<lparr>Value := ?h lh rh\<rparr> = node"
      by (subst n0, simp)+
    obtain cL where cL: "Left node \<noteq> NilKey \<longrightarrow>
        evalNode ?h ?H D m (\<lambda>k n. nodes (storage t) k = Some n) (Left node) cL \<and>
        lh = Node_Hash cL (path (Left node) (Some key)) ?h"
      and pL: "Left node = NilKey \<longrightarrow> LeftHash node = Some lh"
      using eL links by auto
    obtain cR where cR: "Right node \<noteq> NilKey \<longrightarrow>
        evalNode ?h ?H D m (\<lambda>k n. nodes (storage t) k = Some n) (Right node) cR \<and>
        rh = Node_Hash cR (path (Right node) (Some key)) ?h"
      and pR: "Right node = NilKey \<longrightarrow> RightHash node = Some rh"
      using eR links by auto
    have stepL: "quiet ?t1 tl \<and>
         (\<forall>x. rc = Inr x \<longrightarrow> (Left node = NilKey \<and> x = None) \<or> (Left node \<noteq> NilKey \<and> x = Some cL))"
      if "updateChild upd ?t1 (Left node) (Left node = NilKey) = Some (rc, tl)" for rc tl
      by (rule child_quiet [OF IH' that, where ?D1.0 = D and m = m]) (use D0 cL gp(1) in auto)
    have stepR: "quiet tl tb \<and>
         (\<forall>x. rc = Inr x \<longrightarrow> (Right node = NilKey \<and> x = None) \<or> (Right node \<noteq> NilKey \<and> x = Some cR))"
      if "updateChild upd tl (Right node) (Right node = NilKey) = Some (rc, tb)"
        and "quiet ?t1 tl" for rc tl tb
    proof -
      note p = quiet_params [OF quiet_trans [OF q01 that(2)]]
      show ?thesis
        by (rule child_quiet [OF IH' that(1), where ?D1.0 = D and m = m]) (use D0 cR p in auto)
    qed
    from Rec.hyps(3)
    have res: "quiet ?t1 t2 \<and>
       (\<forall>cl cr. r = Inr (cl, cr) \<longrightarrow>
          childHash t key (Left node) (LeftHash node) cl = Some lh \<and>
          childHash t key (Right node) (RightHash node) cr = Some rh)"
    proof (cases rule: updateChildren_cases)
      case (Both cl tl cr)
      note l = stepL [OF Both(1)]
      note r' = stepR [OF Both(2) l [THEN conjunct1]]
      have "quiet ?t1 t2" using l r' by (blast intro: quiet_trans)
      moreover have "childHash t key (Left node) (LeftHash node) cl = Some lh"
        using l pL cL by (auto simp: childHash_def)
      moreover have "childHash t key (Right node) (RightHash node) cr = Some rh"
        using r' pR cR by (auto simp: childHash_def)
      ultimately show ?thesis using Both(3) by simp
    next
      case (LeftErrSerial e)
      then show ?thesis using stepL by blast
    next
      case (LeftErrConcurrent e tl rr)
      note l = stepL [OF LeftErrConcurrent(1)]
      note r' = stepR [OF LeftErrConcurrent(2) l [THEN conjunct1]]
      show ?thesis using l r' LeftErrConcurrent(3) by (blast intro: quiet_trans)
    next
      case (RightErr cl tl e)
      note l = stepL [OF RightErr(1)]
      note r' = stepR [OF RightErr(2) l [THEN conjunct1]]
      show ?thesis using l r' RightErr(3) by (blast intro: quiet_trans)
    qed
    have q02: "quiet t t2" using q01 res by (blast intro: quiet_trans)
    note p2 = quiet_params [OF q02]
    show "quiet t (snd ?y) \<and> (\<forall>n2. fst ?y = Inr n2 \<longrightarrow> n2 = n)"
    proof (cases r)
      case (Inl e)
      then show ?thesis using q02 by (simp add: finishUpdate_def)
    next
      case (Inr cc)
      obtain cl cr where cc: "cc = (cl, cr)" by (cases cc)
      have hs: "childHash t key (Left node) (LeftHash node) cl = Some lh"
        "childHash t key (Right node) (RightHash node) cr = Some rh"
        using res Inr cc by auto
      obtain pr s3 where put: "storage_Put (storage t2) key node = (pr, s3)"
        by (cases "storage_Put (storage t2) key node")
      have "nodes (storage t2) key = Some node" using p2 nd by simp
      then have q23: "quiet t2 (t2\<lparr>storage := s3\<rparr>)"
        using put mu by (intro quiet_Put [OF put]) auto
      have y: "?y = (case pr of Some e \<Rightarrow> Inl e | None \<Rightarrow> Inr node, t2\<lparr>storage := s3\<rparr>)"
        using Inr cc hs put links(5)
        by (simp add: finishUpdate_def split: option.splits)
      show ?thesis
        unfolding y using quiet_trans [OF q02 q23] nn
        by (auto split: option.splits)
    qed
  qed
qed

lemma quiet_reliable: "quiet a b \<Longrightarrow> reliable (storage b) = reliable (storage a)"
  by (simp add: quiet_def reliable_def)

lemma updateChildren_both:
  assumes "updateChild upd t1 (Left node) (Left node = NilKey) = Some (Inr cl, tm)"
    and "updateChild upd tm (Right node) (Right node = NilKey) = Some (Inr cr, t2)"
  shows "updateChildren upd t1 key node = Some (Inr (cl, cr), t2)"
  using assms
  by (simp add: updateChildren_def updateChildTriesConcurrently_def updateChildTriesSerially_def)

lemma child_returns:
  assumes "ck \<noteq> NilKey \<longrightarrow> (\<exists>tb. upd ta ck = Some (Inr c, tb) \<and> quiet ta tb)"
  shows "\<exists>x tb. updateChild upd ta ck (ck = NilKey) = Some (Inr x, tb) \<and> quiet ta tb \<and>
           ((ck = NilKey \<and> x = None) \<or> (ck \<noteq> NilKey \<and> x = Some c))"
  using assms by (cases "ck = NilKey") (auto simp: updateChild_def)

lemma second_pass_returns:
  assumes "evalNode h H D m (\<lambda>k n. M k = Some n) k n"
  shows "\<forall>t. nodes (storage t) = M \<and> reliable (storage t) \<and> dirtyNodes t = [] \<and>
             hash t = h \<and> height t = H \<longrightarrow>
           (\<exists>t'. updateValueIfDirty t k = Some (Inr n, t') \<and> quiet t t')"
  using assms
proof (induction rule: evalNode.induct)
  case (Keep k node)
  show ?case
  proof (intro allI impI)
    fix t :: Trie
    assume t: "nodes (storage t) = M \<and> reliable (storage t) \<and> dirtyNodes t = [] \<and>
             hash t = h \<and> height t = H"
    obtain s1 where g: "storage_Get (storage t) k = (Inr node, s1)"
      using t Keep.hyps(3) by (auto simp: storage_Get_def reliable_def Let_def)
    have "\<not> mustUpdate t node k"
      using Keep.hyps(2) t mustUpd_oneNil [of node k H D]
      by (auto simp: mustUpdate_mustUpd mustUpd_clean)
    then have "updateValueIfDirty t k = Some (Inr node, t\<lparr>storage := s1\<rparr>)"
      using g by (subst updateValueIfDirty_unfold) simp
    then show "\<exists>t'. updateValueIfDirty t k = Some (Inr node, t') \<and> quiet t t'"
      using quiet_Get [OF g] by blast
  qed
next
  case (Rec k node lh rh)
  let ?n = "node\<lparr>Value := h lh rh\<rparr>"
  show ?case
  proof (intro allI impI)
    fix t :: Trie
    assume t: "nodes (storage t) = M \<and> reliable (storage t) \<and> dirtyNodes t = [] \<and>
             hash t = h \<and> height t = H"
    obtain s1 where g: "storage_Get (storage t) k = (Inr ?n, s1)"
      using t Rec.hyps(3) by (auto simp: storage_Get_def reliable_def Let_def)
    let ?t1 = "t\<lparr>storage := s1\<rparr>"
    have q01: "quiet t ?t1" using g by (rule quiet_Get)
    show "\<exists>t'. updateValueIfDirty t k = Some (Inr ?n, t') \<and> quiet t t'"
    proof (cases "mustUpdate t ?n k")
      case False
      then have "updateValueIfDirty t k = Some (Inr ?n, ?t1)"
        using g by (subst updateValueIfDirty_unfold) simp
      then show ?thesis using q01 by blast
    next
      case True
      then have one: "oneNil ?n"
        using t by (simp add: mustUpdate_mustUpd mustUpd_clean oneNil_def)
      have c1: "nodes (storage ?t1) = M \<and> reliable (storage ?t1) \<and> dirtyNodes ?t1 = [] \<and>
             hash ?t1 = h \<and> height ?t1 = H"
        using t q01 quiet_params [OF q01] quiet_reliable [OF q01] by simp
      have "\<exists>cL. (Left ?n \<noteq> NilKey \<longrightarrow>
          (\<exists>tb. updateValueIfDirty ?t1 (Left ?n) = Some (Inr cL, tb) \<and> quiet ?t1 tb) \<and>
          lh = Node_Hash cL (path (Left ?n) (Some k)) h) \<and>
          (Left ?n = NilKey \<longrightarrow> LeftHash ?n = Some lh)"
      proof (cases "Left node = NilKey")
        case True
        then show ?thesis using Rec.IH(1) by simp
      next
        case False
        then obtain c where c: "\<forall>t. nodes (storage t) = M \<and> reliable (storage t) \<and>
             dirtyNodes t = [] \<and> hash t = h \<and> height t = H \<longrightarrow>
           (\<exists>t'. updateValueIfDirty t (Left node) = Some (Inr c, t') \<and> quiet t t')"
          and l: "lh = Node_Hash c (path (Left node) (Some k)) h"
          using Rec.IH(1) by blast
        from c [rule_format, OF c1]
        show ?thesis using l False by (intro exI [of _ c]) simp
      qed
      then obtain cL where cL: "Left ?n \<noteq> NilKey \<longrightarrow>
          (\<exists>tb. updateValueIfDirty ?t1 (Left ?n) = Some (Inr cL, tb) \<and> quiet ?t1 tb) \<and>
          lh = Node_Hash cL (path (Left ?n) (Some k)) h"
        and pL: "Left ?n = NilKey \<longrightarrow> LeftHash ?n = Some lh"
        by blast
      from child_returns [of "Left ?n" updateValueIfDirty ?t1 cL] cL
      obtain xl tl where
        L: "updateChild updateValueIfDirty ?t1 (Left ?n) (Left ?n = NilKey) = Some (Inr xl, tl)"
        and q1l: "quiet ?t1 tl"
        and xl: "(Left ?n = NilKey \<and> xl = None) \<or> (Left ?n \<noteq> NilKey \<and> xl = Some cL)"
        by blast
      have cl: "nodes (storage tl) = M \<and> reliable (storage tl) \<and> dirtyNodes tl = [] \<and>
             hash tl = h \<and> height tl = H"
        using c1 quiet_params [OF q1l] quiet_reliable [OF q1l] by simp
      have "\<exists>cR. (Right ?n \<noteq> NilKey \<longrightarrow>
          (\<exists>tb. updateValueIfDirty tl (Right ?n) = Some (Inr cR, tb) \<and> quiet tl tb) \<and>
          rh = Node_Hash cR (path (Right ?n) (Some k)) h) \<and>
          (Right ?n = NilKey \<longrightarrow> RightHash ?n = Some rh)"
      proof (cases "Right node = NilKey")
        case True
        then show ?thesis using Rec.IH(2) by simp
      next
        case False
        then obtain c where c: "\<forall>t. nodes (storage t) = M \<and> reliable (storage t) \<and>
             dirtyNodes t = [] \<and> hash t = h \<and> height t = H \<longrightarrow>
           (\<exists>t'. updateValueIfDirty t (Right node) = Some (Inr c, t') \<and> quiet t t')"
          and l: "rh = Node_Hash c (path (Right node) (Some k)) h"
          using Rec.IH(2) by blast
        from c [rule_format, OF cl]
        show ?thesis using l False by (intro exI [of _ c]) simp
      qed
      then obtain cR where cR: "Right ?n \<noteq> NilKey \<longrightarrow>
          (\<exists>tb. updateValueIfDirty tl (Right ?n) = Some (Inr cR, tb) \<and> quiet tl tb) \<and>
          rh = Node_Hash cR (path (Right ?n) (Some k)) h"
        and pR: "Right ?n = NilKey \<longrightarrow> RightHash ?n = Some rh"
        by blast
      from child_returns [of "Right ?n" updateValueIfDirty tl cR] cR
      obtain xr t2 where
        R: "updateChild updateValueIfDirty tl (Right ?n) (Right ?n = NilKey) = Some (Inr xr, t2)"
        and ql2: "quiet tl t2"
        and xr: "(Right ?n = NilKey \<and> xr = None) \<or> (Right ?n \<noteq> NilKey \<and> xr = Some cR)"
        by blast
      have c2: "nodes (storage t2) = M \<and> reliable (storage t2) \<and> dirtyNodes t2 = [] \<and>
             hash t2 = h \<and> height t2 = H"
        using cl quiet_params [OF ql2] quiet_reliable [OF ql2] by simp
      have ch: "updateChildren updateValueIfDirty ?t1 k ?n = Some (Inr (xl, xr), t2)"
        by (rule updateChildren_both [OF L R])
      have hl: "childHash t k (Left ?n) (LeftHash ?n) xl = Some lh"
        using xl pL cL t by (auto simp: childHash_def)
      have hr: "childHash t k (Right ?n) (RightHash ?n) xr = Some rh"
        using xr pR cR t by (auto simp: childHash_def)
      obtain s3 where put: "storage_Put (storage t2) k ?n = (None, s3)"
        using c2 by (auto simp: storage_Put_def reliable_def Let_def)
      have "nodes (storage t2) k = Some ?n" using c2 Rec.hyps(3) by simp
      then have q23: "quiet t2 (t2\<lparr>storage := s3\<rparr>)"
        using one by (intro quiet_Put [OF put]) auto
      have fin: "finishUpdate t k ?n (Inr (xl, xr)) t2 = (Inr ?n, t2\<lparr>storage := s3\<rparr>)"
        using hl hr put t by (simp add: finishUpdate_def)
      have "updateValueIfDirty t k = Some (Inr ?n, t2\<lparr>storage := s3\<rparr>)"
        using g True ch fin by (subst updateValueIfDirty_unfold) simp
      moreover have "quiet t (t2\<lparr>storage := s3\<rparr>)"
        using q01 q1l ql2 q23 by (blast intro: quiet_trans)
      ultimately show ?thesis by blast
    qed
  qed
qed

lemma Root_ok:
  assumes "Root t = Some (Inr v, t1)"
  obtains (Empty) "rootKey t1 = None" "\<not> rootKeyIsDirty t1" "v = 0"
  | (Tree) rk t0 root t2 where "rootKey t1 = Some rk" "\<not> rootKeyIsDirty t1"
      "same_frame t (t0\<lparr>rootKeyIsDirty := rootKeyIsDirty t\<rparr>)" "rootKey t0 = Some rk"
      "updateValueIfDirty t0 rk = Some (Inr root, t2)"
      "v = Node_Hash root rk (hash t)" "t1 = t2\<lparr>dirtyNodes := []\<rparr>"
      "\<not> rootKeyIsDirty t0"
proof -
  define fl where "fl = (if rootKeyIsDirty t then
              (case rootKey t of
                 None \<Rightarrow>
                   (case storage_DeleteRootKey (storage t) of
                      (Some e, s1) \<Rightarrow> (Some e, t\<lparr>storage := s1\<rparr>)
                    | (None, s1) \<Rightarrow> (None, t\<lparr>storage := s1, rootKeyIsDirty := False\<rparr>))
               | Some rk \<Rightarrow>
                   (case storage_PutRootKey (storage t) rk of
                      (Some e, s1) \<Rightarrow> (Some e, t\<lparr>storage := s1\<rparr>)
                    | (None, s1) \<Rightarrow> (None, t\<lparr>storage := s1, rootKeyIsDirty := False\<rparr>)))
            else (None, t))"
  obtain fr t0 where fl0: "fl = (fr, t0)" by (cases fl)
  have R: "Root t = (case fl of
        (Some e, t1) \<Rightarrow> Some (Inl e, t1)
      | (None, t1) \<Rightarrow>
          (case rootKey t1 of
             None \<Rightarrow> Some (Inr 0, t1)
           | Some rk \<Rightarrow>
               Option.bind
                 (updateValueIfDirty (t1\<lparr>storage := SyncedStorage (storage t1)\<rparr>) rk)
                 (\<lambda>(r, t2).
                    case r of
                      Inl e \<Rightarrow> Some (Inl e, t2)
                    | Inr root \<Rightarrow>
                        Some (Inr (Node_Hash root (path rk None) (hash t2)),
                              t2\<lparr>dirtyNodes := []\<rparr>))))"
    unfolding fl_def Root_def ..
  have fr: "fr = None" using assms R fl0 by (cases fr) auto
  have t0: "same_frame t (t0\<lparr>rootKeyIsDirty := rootKeyIsDirty t\<rparr>) \<and> \<not> rootKeyIsDirty t0"
    using fl0 fr unfolding fl_def
    by (cases t) (auto simp: same_frame_def split: if_splits option.splits prod.splits)
  have rk0: "rootKey t0 = rootKey t" "hash t0 = hash t"
    using t0 same_frame_params [of t "t0\<lparr>rootKeyIsDirty := rootKeyIsDirty t\<rparr>"] by auto
  show ?thesis
  proof (cases "rootKey t0")
    case None
    then have "v = 0" "t1 = t0" using assms R fl0 fr by auto
    then show ?thesis using Empty None t0 by simp
  next
    case (Some rk)
    then obtain r t2 where u: "updateValueIfDirty t0 rk = Some (r, t2)"
      and rest: "(case r of
                      Inl e \<Rightarrow> Some (Inl e, t2)
                    | Inr root \<Rightarrow>
                        Some (Inr (Node_Hash root (path rk None) (hash t2)),
                              t2\<lparr>dirtyNodes := []\<rparr>)) = Some (Inr v, t1)"
      using assms R fl0 fr by (auto split: Option.bind_splits)
    then obtain root where r: "r = Inr root"
      and v: "v = Node_Hash root (path rk None) (hash t2)" and t1: "t1 = t2\<lparr>dirtyNodes := []\<rparr>"
      by (cases r) auto
    have sf: "same_frame t0 t2" using updateValueIfDirty_frame [OF u] by simp
    note p = same_frame_params [OF sf]
    show ?thesis
      apply (rule Tree [of rk t0 root t2])
      using Some t1 p t0 u r v rk0 by (simp_all add: path_def)
  qed
qed

lemma case_ok_obtain:
  assumes "case x of Some (Inr v, t1) \<Rightarrow> Q v t1 | _ \<Rightarrow> False"
  shows "\<exists>v t1. x = Some (Inr v, t1) \<and> Q v t1"
proof (cases x)
  case None
  then show ?thesis using assms by simp
next
  case (Some y)
  obtain r t1 where y: "y = (r, t1)" by (cases y)
  show ?thesis using assms Some y by (cases r) auto
qed

lemma Root_halfTrie: "Root halfTrie = Some (Inr 446, halfTrieRooted)"
  by (simp add: Root_def halfTrie_def halfTrieRooted_def eval_defs)

section \<open>Out-of-range keys\<close>

text \<open>
  Claim C3. For a key above \<open>maxKey\<close> and any value, \<open>Put\<close> and \<open>PutWithProof\<close> return
  the out-of-range error and hand back the trie as it was: the storage contents, the list
  of storage operations (so no read and no write was attempted), the dirty list and the
  root key are those of the trie before the call.
\<close>

theorem Put_key_out_of_range:
  "maxKey t < key \<Longrightarrow>
     Put t key val = Some (Inl (KeyOutOfRange key (height t)), t) \<and>
     PutWithProof t key val prf = Some (Inl (KeyOutOfRange key (height t)), t)"
  by (simp add: Put_def PutWithProof_def)

theorem Put_key_out_of_range_witness:
  "maxKey (tempTrie 4) < 16 \<and>
   Put (tempTrie 4) 16 1 = Some (Inl (KeyOutOfRange 16 4), tempTrie 4) \<and>
   PutWithProof (tempTrie 4) 16 1 [] = Some (Inl (KeyOutOfRange 16 4), tempTrie 4)"
proof -
  have h: "maxKey (tempTrie 4) < 16" by (simp add: tempTrie_def)
  show ?thesis using h Put_key_out_of_range [OF h, of 1 "[]"] by (simp add: tempTrie_def)
qed


section \<open>Read path\<close>

text \<open>
  Claim C7. \<open>Get\<close> reads the storage once, at the full-depth key of the given key, and
  writes nothing. If the storage answers a node, \<open>Get\<close> returns the value stored in it;
  if it answers key-not-found, \<open>Get\<close> returns zero and no error; any other error of the
  storage is returned as it is.
\<close>

theorem Get_reads_full_depth_key:
  "(storage_Get (storage t) (FeltToKey (height t) key) = (Inr n, s') \<longrightarrow>
      Get t key = (Inr (Value n), t\<lparr>storage := s'\<rparr>)) \<and>
   (storage_Get (storage t) (FeltToKey (height t) key) = (Inl ErrKeyNotFound, s') \<longrightarrow>
      Get t key = (Inr 0, t\<lparr>storage := s'\<rparr>)) \<and>
   (storage_Get (storage t) (FeltToKey (height t) key) = (Inl e, s') \<and> e \<noteq> ErrKeyNotFound \<longrightarrow>
      Get t key = (Inl e, t\<lparr>storage := s'\<rparr>)) \<and>
   trace (storage (snd (Get t key))) = trace (storage t) @ [OpGet (FeltToKey (height t) key)] \<and>
   nodes (storage (snd (Get t key))) = nodes (storage t) \<and>
   root_slot (storage (snd (Get t key))) = root_slot (storage t)"
  by (auto simp: Get_def storage_Get_def Let_def split: option.splits)

theorem Get_reads_full_depth_key_witness:
  "Get leafTrie 1 = (Inr 42, leafTrie\<lparr>storage := (storage leafTrie)\<lparr>trace := [OpGet [False, True]]\<rparr>\<rparr>) \<and>
   Get leafTrie 0 = (Inr 0, leafTrie\<lparr>storage := (storage leafTrie)\<lparr>trace := [OpGet [False, False]]\<rparr>\<rparr>) \<and>
   Get (failingOn (OpGet [False, True]) 5 leafTrie) 1 =
     (Inl (StorageError 5),
      failingOn (OpGet [False, True]) 5 (leafTrie\<lparr>storage := (storage leafTrie)\<lparr>trace := [OpGet [False, True]]\<rparr>\<rparr>))"
proof -
  have a: "storage_Get (storage leafTrie) (FeltToKey (height leafTrie) 1) =
             (Inr (leafNode 42), (storage leafTrie)\<lparr>trace := [OpGet [False, True]]\<rparr>)"
    by (simp add: leafTrie_def storage_Get_def)
  have b: "storage_Get (storage leafTrie) (FeltToKey (height leafTrie) 0) =
             (Inl ErrKeyNotFound, (storage leafTrie)\<lparr>trace := [OpGet [False, False]]\<rparr>)"
    by (simp add: leafTrie_def storage_Get_def)
  have c: "storage_Get (storage (failingOn (OpGet [False, True]) 5 leafTrie))
             (FeltToKey (height (failingOn (OpGet [False, True]) 5 leafTrie)) 1) =
             (Inl (StorageError 5),
              (storage (failingOn (OpGet [False, True]) 5 leafTrie))\<lparr>trace := [OpGet [False, True]]\<rparr>)
           \<and> StorageError 5 \<noteq> ErrKeyNotFound"
    by (simp add: leafTrie_def storage_Get_def failingOn_def)
  show ?thesis
    using Get_reads_full_depth_key [of leafTrie 1 "leafNode 42" _ "StorageError 5"] a
      Get_reads_full_depth_key [of leafTrie 0 "leafNode 42" _ "StorageError 5"] b
      Get_reads_full_depth_key [of "failingOn (OpGet [False, True]) 5 leafTrie" 1 "leafNode 42" _ "StorageError 5"] c
    by (simp add: leafNode_def failingOn_def)
qed


section \<open>Commitment of the empty trie\<close>

text \<open>
  Claim C6. On a trie constructed over a storage without a root key, \<open>Root\<close> returns
  zero. More generally, when the root key of the trie is absent, \<open>Root\<close> returns zero once
  the root key slot is settled: at once when the slot is not dirty, and after the storage
  has deleted the slot when it is.
\<close>

theorem Root_of_empty_trie:
  "(newTrie st h hashFn = (Inr t0, st') \<and> root_slot st = None \<longrightarrow> Root t0 = Some (Inr 0, t0)) \<and>
   (rootKey t = None \<and> \<not> rootKeyIsDirty t \<longrightarrow> Root t = Some (Inr 0, t)) \<and>
   (rootKey t = None \<and> rootKeyIsDirty t \<and> storage_DeleteRootKey (storage t) = (None, s1) \<longrightarrow>
      Root t = Some (Inr 0, t\<lparr>storage := s1, rootKeyIsDirty := False\<rparr>))"
  by (auto simp: Root_def newTrie_def storage_RootKey_def Let_def split: if_splits option.splits)

theorem Root_of_empty_trie_witness:
  "Root (tempTrie 4\<lparr>storage := newMemStorage\<lparr>trace := [OpRootKey]\<rparr>\<rparr>) =
     Some (Inr 0, tempTrie 4\<lparr>storage := newMemStorage\<lparr>trace := [OpRootKey]\<rparr>\<rparr>) \<and>
   Root (tempTrie 4) = Some (Inr 0, tempTrie 4) \<and>
   Root (tempTrie 4\<lparr>rootKeyIsDirty := True\<rparr>) =
     Some (Inr 0, tempTrie 4\<lparr>storage := newMemStorage\<lparr>trace := [OpDeleteRootKey]\<rparr>\<rparr>)"
proof -
  have a: "newTrie newMemStorage 4 toyHash =
             (Inr (tempTrie 4\<lparr>storage := newMemStorage\<lparr>trace := [OpRootKey]\<rparr>\<rparr>),
              newMemStorage\<lparr>trace := [OpRootKey]\<rparr>) \<and> root_slot newMemStorage = None"
    by (simp add: newTrie_def felt_Bits_def storage_RootKey_def newMemStorage_def tempTrie_def)
  have b: "rootKey (tempTrie 4) = None \<and> \<not> rootKeyIsDirty (tempTrie 4)"
    by (simp add: tempTrie_def)
  have c: "rootKey (tempTrie 4\<lparr>rootKeyIsDirty := True\<rparr>) = None \<and>
           rootKeyIsDirty (tempTrie 4\<lparr>rootKeyIsDirty := True\<rparr>) \<and>
           storage_DeleteRootKey (storage (tempTrie 4\<lparr>rootKeyIsDirty := True\<rparr>)) =
             (None, newMemStorage\<lparr>trace := [OpDeleteRootKey]\<rparr>)"
    by (simp add: tempTrie_def storage_DeleteRootKey_def newMemStorage_def)
  show ?thesis
    using Root_of_empty_trie [of newMemStorage 4 toyHash _ _ "tempTrie 4"] a b
      Root_of_empty_trie [of newMemStorage 4 toyHash _ _ "tempTrie 4\<lparr>rootKeyIsDirty := True\<rparr>"] c
    by (simp add: tempTrie_def)
qed



section \<open>Put, then Get\<close>

text \<open>
  Claim C1. For a key within range and a value other than zero: when \<open>Put\<close> returns
  without error, the storage holds the leaf with the new value at the full-depth key, and
  a following \<open>Get\<close> of the key returns the value (given that the backend does not fail
  on that read). Nothing is assumed about the trie before the call.
\<close>

theorem Put_then_Get:
  assumes "key \<le> maxKey t" and "v \<noteq> 0" and "Put t key v = Some (Inr old, t')"
  shows "nodes (storage t') (FeltToKey (height t') key) = Some (leafNode v) \<and>
         (fault (storage t') (trace (storage t')) (OpGet (FeltToKey (height t') key)) = None \<longrightarrow>
            fst (Get t' key) = Inr v)"
proof -
  have s: "nodes (storage t') (FeltToKey (height t') key) = Some (leafNode v)"
    using Put_stores_leaf [OF assms(2,3)] by simp
  show ?thesis using s Get_stored_leaf [OF s] by (simp add: leafNode_def)
qed



theorem Put_then_Get_witness:
  "(\<exists>old t'. Put (tempTrie 2) 1 42 = Some (Inr old, t') \<and> fst (Get t' 1) = Inr 42) \<and>
   (\<exists>old t'. Put leafTrie 1 99 = Some (Inr old, t') \<and> fst (Get t' 1) = Inr 99) \<and>
   (\<exists>old t'. Put leafTrie 2 8 = Some (Inr old, t') \<and> fst (Get t' 2) = Inr 8)"
proof -
  have run: "\<And>t k v. k \<le> maxKey t \<Longrightarrow> v \<noteq> 0 \<Longrightarrow>
      (case Put t k v of
         Some (Inr old, t') \<Rightarrow>
           fault (storage t') (trace (storage t')) (OpGet (FeltToKey (height t') k)) = None
       | _ \<Rightarrow> False) \<Longrightarrow>
      \<exists>old t'. Put t k v = Some (Inr old, t') \<and> fst (Get t' k) = Inr v"
  proof -
    fix t k and v :: Felt
    assume k: "k \<le> maxKey t" and v: "v \<noteq> 0"
      and c: "case Put t k v of
         Some (Inr old, t') \<Rightarrow>
           fault (storage t') (trace (storage t')) (OpGet (FeltToKey (height t') k)) = None
       | _ \<Rightarrow> False"
    from c obtain r t' where p0: "Put t k v = Some (r, t')"
      by (cases "Put t k v") auto
    with c obtain old where r: "r = Inr old"
      by (cases r) auto
    from c p0 r have p: "Put t k v = Some (Inr old, t')"
      and f: "fault (storage t') (trace (storage t')) (OpGet (FeltToKey (height t') k)) = None"
      by auto
    from Put_then_Get [OF k v p] f have "fst (Get t' k) = Inr v" by blast
    with p show "\<exists>old t'. Put t k v = Some (Inr old, t') \<and> fst (Get t' k) = Inr v" by blast
  qed
  have a: "\<exists>old t'. Put (tempTrie 2) 1 42 = Some (Inr old, t') \<and> fst (Get t' 1) = Inr 42"
    by (rule run) code_simp+
  have b: "\<exists>old t'. Put leafTrie 1 99 = Some (Inr old, t') \<and> fst (Get t' 1) = Inr 99"
    by (rule run) code_simp+
  have c: "\<exists>old t'. Put leafTrie 2 8 = Some (Inr old, t') \<and> fst (Get t' 2) = Inr 8"
    by (rule run) code_simp+
  show ?thesis using a b c by blast
qed


section \<open>Deleting an absent key\<close>

text \<open>
  Claim C8, as stated, fails on a trie whose root key names a key at which nothing is
  stored. Such a trie arises on a backend that never fails: \<open>halfTrie\<close> has a root
  with a NIL right link over one leaf; deleting that leaf removes leaf and root and makes
  the NIL key the root key (\<open>danglingTrie\<close>). There the key 3 is within range and
  absent, and \<open>Put\<close> with the value zero returns the key-not-found error of the
  descent instead of the nil result.
\<close>

theorem Put_zero_absent_dangling_root:
  "Put halfTrie 1 0 = Some (Inr (Some 42), danglingTrie) \<and>
   3 \<le> maxKey danglingTrie \<and>
   nodes (storage danglingTrie) (FeltToKey (height danglingTrie) 3) = None \<and>
   Put danglingTrie 3 0 =
     Some (Inl ErrKeyNotFound,
           danglingTrie\<lparr>storage := (storage danglingTrie)
              \<lparr>trace := trace (storage danglingTrie) @ [OpGet []]\<rparr>\<rparr>)"
proof -
  have a: "Put halfTrie 1 0 = Some (Inr (Some 42), danglingTrie)"
    by (simp add: halfTrie_def danglingTrie_def Put_def updateLeaf_def nodesFromRoot_def
        nodesFromRoot_loop.simps storage_Get_def Let_def Len_def isSubset_def IsBitSet_def
        sub8_def leafNode_def NilKey_def deleteExistingKey_def deleteLast_def
        storage_Delete_def setRootKey_def)
  have b: "Put danglingTrie 3 0 =
     Some (Inl ErrKeyNotFound,
           danglingTrie\<lparr>storage := (storage danglingTrie)
              \<lparr>trace := trace (storage danglingTrie) @ [OpGet []]\<rparr>\<rparr>)"
    by (simp add: danglingTrie_def Put_def updateLeaf_def nodesFromRoot_def
        nodesFromRoot_loop.simps storage_Get_def Let_def)
  show ?thesis using a b by (simp add: danglingTrie_def)
qed

text \<open>
  Claim C8, amended. Let the key be within range and no leaf be stored at its full-depth
  key. Whatever \<open>Put\<close> with the value zero returns, the trie it hands back is the trie
  before the call but for the reads logged by the storage (no write, no delete, the root
  key, its dirty flag and the dirty list as before), and the result is never an old value.
  When the descent from the root returns its list of nodes, on an empty trie or not, the
  call returns the nil result and no error; on a trie without a root key it does so
  without a read. When the descent returns an error (a root key or a link naming a key
  that is not stored, or a failed read) the call returns that error.
\<close>

theorem Put_zero_absent_is_noop:
  assumes "key \<le> maxKey t" and "nodes (storage t) (FeltToKey (height t) key) = None"
  shows "(\<forall>r t'. Put t key 0 = Some (r, t') \<longrightarrow>
            (\<exists>ops. t' = t\<lparr>storage := (storage t)\<lparr>trace := trace (storage t) @ ops\<rparr>\<rparr> \<and>
                   list_all isGet ops) \<and>
            (r = Inr None \<or> (\<exists>e. r = Inl e))) \<and>
         (\<forall>nds t2. nodesFromRoot t (FeltToKey (height t) key) = Some (Inr nds, t2) \<longrightarrow>
            Put t key 0 = Some (Inr None, t2)) \<and>
         (\<forall>e t2. nodesFromRoot t (FeltToKey (height t) key) = Some (Inl e, t2) \<longrightarrow>
            Put t key 0 = Some (Inl e, t2)) \<and>
         (rootKey t = None \<longrightarrow> Put t key 0 = Some (Inr None, t))"
proof (intro conjI allI impI)
  fix r t' assume p: "Put t key 0 = Some (r, t')"
  from Put_zero_absent_general [OF assms(2) p]
  show "\<exists>ops. t' = t\<lparr>storage := (storage t)\<lparr>trace := trace (storage t) @ ops\<rparr>\<rparr> \<and> list_all isGet ops"
    and "r = Inr None \<or> (\<exists>e. r = Inl e)"
    by (auto simp: logged_def)
next
  let ?nodeKey = "FeltToKey (height t) key"
  have le: "\<not> maxKey t < key" using assms(1) by simp
  have ul: "updateLeaf t ?nodeKey (leafNode 0) 0 = (Inr None, t)"
    by (simp add: updateLeaf_def)
  {
    fix nds t2 assume d: "nodesFromRoot t ?nodeKey = Some (Inr nds, t2)"
    have mem: "\<forall>n \<in> set nds. nodes (storage t) (sn_key n) = Some (sn_node n)"
      using nodesFromRoot_loop_props [OF d [unfolded nodesFromRoot_def]] by auto
    show "Put t key 0 = Some (Inr None, t2)"
    proof (cases "length nds = 0")
      case True
      then show ?thesis using le ul d by (simp add: Put_def handleEmptyTrie_def)
    next
      case False
      let ?sib = "nds ! (length nds - 1)"
      have "?sib \<in> set nds" using False by simp
      then have ne: "?nodeKey \<noteq> sn_key ?sib" using mem assms(2) by auto
      show ?thesis
        using le ul d False deleteExistingKey_other [OF ne, of t2 nds]
        by (simp add: Put_def Let_def)
    qed
  }
  {
    fix e t2 assume d: "nodesFromRoot t ?nodeKey = Some (Inl e, t2)"
    show "Put t key 0 = Some (Inl e, t2)"
      using le ul d by (simp add: Put_def)
  }
  {
    assume "rootKey t = None"
    then have d: "nodesFromRoot t ?nodeKey = Some (Inr [], t)"
      by (simp add: nodesFromRoot_def nodesFromRoot_loop.simps)
    show "Put t key 0 = Some (Inr None, t)"
      using le ul d by (simp add: Put_def handleEmptyTrie_def)
  }
qed

theorem Put_zero_absent_is_noop_witness:
  "Put (tempTrie 2) 1 0 = Some (Inr None, tempTrie 2) \<and>
   (\<exists>ops. Put twoTrie 0 0 =
            Some (Inr None, twoTrie\<lparr>storage := (storage twoTrie)
                              \<lparr>trace := trace (storage twoTrie) @ ops\<rparr>\<rparr>) \<and>
          list_all isGet ops) \<and>
   (\<exists>t'. Put (failingOn (OpGet []) 9 twoTrie) 0 0 = Some (Inl (StorageError 9), t'))"
proof -
  have a: "1 \<le> maxKey (tempTrie 2)"
    "nodes (storage (tempTrie 2)) (FeltToKey (height (tempTrie 2)) 1) = None"
    by (simp_all add: tempTrie_def newMemStorage_def)
  have a0: "rootKey (tempTrie 2) = None" by (simp add: tempTrie_def)
  have b: "0 \<le> maxKey twoTrie"
    "nodes (storage twoTrie) (FeltToKey (height twoTrie) 0) = None"
    by (simp_all add: twoTrie_def)
  have db: "case nodesFromRoot twoTrie (FeltToKey (height twoTrie) 0) of
              Some (Inr nds, t2) \<Rightarrow> True | _ \<Rightarrow> False"
    by code_simp
  then obtain nds t2 where d: "nodesFromRoot twoTrie (FeltToKey (height twoTrie) 0) = Some (Inr nds, t2)"
    by (auto split: option.splits sum.splits prod.splits)
  have c: "0 \<le> maxKey (failingOn (OpGet []) 9 twoTrie)"
    "nodes (storage (failingOn (OpGet []) 9 twoTrie))
       (FeltToKey (height (failingOn (OpGet []) 9 twoTrie)) 0) = None"
    by (simp_all add: twoTrie_def failingOn_def)
  have dc: "case nodesFromRoot (failingOn (OpGet []) 9 twoTrie)
                   (FeltToKey (height (failingOn (OpGet []) 9 twoTrie)) 0) of
              Some (Inl e, t2) \<Rightarrow> e = StorageError 9 | _ \<Rightarrow> False"
    by code_simp
  then obtain t3 where d3: "nodesFromRoot (failingOn (OpGet []) 9 twoTrie)
                   (FeltToKey (height (failingOn (OpGet []) 9 twoTrie)) 0) =
                   Some (Inl (StorageError 9), t3)"
    by (auto split: option.splits sum.splits prod.splits)
  have A: "Put (tempTrie 2) 1 0 = Some (Inr None, tempTrie 2)"
    using Put_zero_absent_is_noop [OF a] a0 by blast
  have B: "\<exists>ops. Put twoTrie 0 0 =
            Some (Inr None, twoTrie\<lparr>storage := (storage twoTrie)
                              \<lparr>trace := trace (storage twoTrie) @ ops\<rparr>\<rparr>) \<and>
          list_all isGet ops"
  proof -
    have p: "Put twoTrie 0 0 = Some (Inr None, t2)"
      using Put_zero_absent_is_noop [OF b] d by blast
    then show ?thesis using Put_zero_absent_is_noop [OF b] by blast
  qed
  have C: "\<exists>t'. Put (failingOn (OpGet []) 9 twoTrie) 0 0 = Some (Inl (StorageError 9), t')"
    using Put_zero_absent_is_noop [OF c] d3 by blast
  show ?thesis using A B C by blast
qed

section \<open>Errors of the recomputation\<close>

text \<open>
  Claim C10. When \<open>Root\<close> returns an error, the dirty list is the one before the call;
  when the recursive recomputation of \<open>updateValueIfDirty\<close> fails with an error,
  \<open>Root\<close> returns that error (with a settled or a dirty root key slot); the dirty list
  is emptied only when the recomputation has succeeded.
\<close>

theorem Root_error_keeps_dirtyNodes:
  "(Root t = Some (Inl e, t') \<longrightarrow> dirtyNodes t' = dirtyNodes t) \<and>
   (Root t = Some (Inr c, t') \<and> rootKey t \<noteq> None \<longrightarrow> dirtyNodes t' = []) \<and>
   (rootKey t = Some rk \<and> \<not> rootKeyIsDirty t \<and> updateValueIfDirty t rk = Some (Inl e, t') \<longrightarrow>
      Root t = Some (Inl e, t')) \<and>
   (rootKey t = Some rk \<and> rootKeyIsDirty t \<and> storage_PutRootKey (storage t) rk = (None, s1) \<and>
      updateValueIfDirty (t\<lparr>storage := s1, rootKeyIsDirty := False\<rparr>) rk = Some (Inl e, t') \<longrightarrow>
      Root t = Some (Inl e, t'))"
proof -
  have fr: "\<And>t0 k r t1. updateValueIfDirty t0 k = Some (r, t1) \<Longrightarrow> dirtyNodes t1 = dirtyNodes t0"
    using updateValueIfDirty_frame unfolding same_frame_def
    by (metis Trie.select_convs(6) Trie.surjective Trie.update_convs(4) snd_conv)
  have 1: "Root t = Some (Inl e, t') \<longrightarrow> dirtyNodes t' = dirtyNodes t"
    by (auto simp: Root_def split: if_splits option.splits prod.splits sum.splits Option.bind_splits
        dest!: fr)
  have 2: "Root t = Some (Inr c, t') \<and> rootKey t \<noteq> None \<longrightarrow> dirtyNodes t' = []"
    by (auto simp: Root_def split: if_splits option.splits prod.splits sum.splits Option.bind_splits)
  have 3: "rootKey t = Some rk \<and> \<not> rootKeyIsDirty t \<and> updateValueIfDirty t rk = Some (Inl e, t') \<longrightarrow>
      Root t = Some (Inl e, t')"
    by (simp add: Root_def)
  have 4: "rootKey t = Some rk \<and> rootKeyIsDirty t \<and> storage_PutRootKey (storage t) rk = (None, s1) \<and>
      updateValueIfDirty (t\<lparr>storage := s1, rootKeyIsDirty := False\<rparr>) rk = Some (Inl e, t') \<longrightarrow>
      Root t = Some (Inl e, t')"
    by (cases t) (auto simp: Root_def SyncedStorage_def)
  show ?thesis using 1 2 3 4 by blast
qed

theorem Root_error_keeps_dirtyNodes_witness:
  "Root (failingOn (OpGet [True]) 5 branchTrie) =
     Some (Inl (StorageError 5),
           failingOn (OpGet [True]) 5
             (branchTrie\<lparr>storage := (storage branchTrie)\<lparr>trace := [OpGet [], OpGet [False], OpGet [True]]\<rparr>\<rparr>)) \<and>
   dirtyNodes (failingOn (OpGet [True]) 5
             (branchTrie\<lparr>storage := (storage branchTrie)\<lparr>trace := [OpGet [], OpGet [False], OpGet [True]]\<rparr>\<rparr>))
     = [[True]] \<and>
   Root (failingOn (OpGet [True]) 5 (branchTrie\<lparr>rootKeyIsDirty := True\<rparr>)) =
     Some (Inl (StorageError 5),
           failingOn (OpGet [True]) 5
             (branchTrie\<lparr>storage := (storage branchTrie)
                \<lparr>trace := [OpPutRootKey [], OpGet [], OpGet [False], OpGet [True]]\<rparr>\<rparr>)) \<and>
   Root branchTrie =
     Some (Inr 73,
           branchTrie\<lparr>dirtyNodes := [],
             storage := (storage branchTrie)
               \<lparr>nodes := (nodes (storage branchTrie))
                   ([] \<mapsto> \<lparr>Value = 73, Left = [False], Right = [True],
                              LeftHash = None, RightHash = None\<rparr>),
                trace := [OpGet [], OpGet [False], OpGet [True],
                          OpPut [] \<lparr>Value = 73, Left = [False], Right = [True],
                                    LeftHash = None, RightHash = None\<rparr>]\<rparr>\<rparr>)"
proof -
  let ?f = "failingOn (OpGet [True]) 5"
  let ?t1 = "?f (branchTrie\<lparr>storage := (storage branchTrie)\<lparr>trace := [OpGet [], OpGet [False], OpGet [True]]\<rparr>\<rparr>)"
  let ?t2 = "?f (branchTrie\<lparr>storage := (storage branchTrie)
                \<lparr>trace := [OpPutRootKey [], OpGet [], OpGet [False], OpGet [True]]\<rparr>\<rparr>)"
  let ?s1 = "(storage (?f branchTrie))\<lparr>trace := [OpPutRootKey []]\<rparr>"
  have a: "rootKey (?f branchTrie) = Some [] \<and> \<not> rootKeyIsDirty (?f branchTrie) \<and>
           updateValueIfDirty (?f branchTrie) [] = Some (Inl (StorageError 5), ?t1)"
    by (simp add: branchTrie_def eval_defs)
  have b: "rootKey (?f (branchTrie\<lparr>rootKeyIsDirty := True\<rparr>)) = Some [] \<and>
           rootKeyIsDirty (?f (branchTrie\<lparr>rootKeyIsDirty := True\<rparr>)) \<and>
           storage_PutRootKey (storage (?f (branchTrie\<lparr>rootKeyIsDirty := True\<rparr>))) [] = (None, ?s1) \<and>
           updateValueIfDirty ((?f (branchTrie\<lparr>rootKeyIsDirty := True\<rparr>))\<lparr>storage := ?s1, rootKeyIsDirty := False\<rparr>) []
             = Some (Inl (StorageError 5), ?t2)"
    by (simp add: branchTrie_def eval_defs)
  have c: "Root branchTrie =
     Some (Inr 73,
           branchTrie\<lparr>dirtyNodes := [],
             storage := (storage branchTrie)
               \<lparr>nodes := (nodes (storage branchTrie))
                   ([] \<mapsto> \<lparr>Value = 73, Left = [False], Right = [True],
                              LeftHash = None, RightHash = None\<rparr>),
                trace := [OpGet [], OpGet [False], OpGet [True],
                          OpPut [] \<lparr>Value = 73, Left = [False], Right = [True],
                                    LeftHash = None, RightHash = None\<rparr>]\<rparr>\<rparr>) \<and> rootKey branchTrie \<noteq> None"
    by (simp add: Root_def branchTrie_def eval_defs)
  have r1: "Root (?f branchTrie) = Some (Inl (StorageError 5), ?t1)"
    using Root_error_keeps_dirtyNodes [of "?f branchTrie" "StorageError 5" ?t1 _ "[]"] a by blast
  have r2: "Root (?f (branchTrie\<lparr>rootKeyIsDirty := True\<rparr>)) = Some (Inl (StorageError 5), ?t2)"
    using Root_error_keeps_dirtyNodes [of "?f (branchTrie\<lparr>rootKeyIsDirty := True\<rparr>)" "StorageError 5" ?t2 _ "[]" ?s1] b
    by blast
  have d1: "dirtyNodes ?t1 = dirtyNodes (?f branchTrie)"
    using Root_error_keeps_dirtyNodes [of "?f branchTrie" "StorageError 5" ?t1] r1 by blast
  have d2: "dirtyNodes ?t1 = [[True]]"
    using d1 by (simp add: branchTrie_def failingOn_def)
  show ?thesis using r1 r2 d2 c by blast
qed


section \<open>Deleting a present key\<close>




section \<open>Root, called twice\<close>

text \<open>
  Claim C5, as stated, fails in its second half on a trie with a proof node that has
  exactly one NIL link: \<open>updateValueIfDirty\<close> recomputes such a node whatever the
  dirty list holds. \<open>halfTrie\<close> has such a root over one leaf. Both calls of
  \<open>Root\<close> return 446, and the second call, on the trie the first call returned,
  stores the root node again: a storage write.
\<close>

theorem Root_twice_rewrites_proof_node:
  "Root halfTrie = Some (Inr 446, halfTrieRooted) \<and>
   Root halfTrieRooted =
     Some (Inr 446,
           halfTrieRooted\<lparr>storage := (storage halfTrieRooted)
             \<lparr>trace := trace (storage halfTrieRooted) @
                [OpGet [], OpGet [False, True],
                 OpPut [] \<lparr>Value = 446, Left = [False, True], Right = NilKey,
                             LeftHash = None, RightHash = Some 5\<rparr>]\<rparr>\<rparr>)"
proof -
  have "Root halfTrieRooted =
     Some (Inr 446,
           halfTrieRooted\<lparr>storage := (storage halfTrieRooted)
             \<lparr>trace := trace (storage halfTrieRooted) @
                [OpGet [], OpGet [False, True],
                 OpPut [] \<lparr>Value = 446, Left = [False, True], Right = NilKey,
                             LeftHash = None, RightHash = Some 5\<rparr>]\<rparr>\<rparr>)"
    by (simp add: Root_def halfTrieRooted_def eval_defs)
  then show ?thesis using Root_halfTrie by simp
qed

text \<open>
  Claim C5, amended. Let \<open>Root\<close> return a commitment, on any trie. Whatever a
  second call on the returned trie returns, it is that same commitment or an error of the
  storage; the trie it hands back differs in the storage only; the stored nodes and the
  root key slot are as before; and the operations it attempts are reads, and puts that
  store a node with exactly one NIL link at a key where that very node is stored already
  (so on a trie without such nodes it only reads). On a backend that does not fail the
  second call returns the same commitment.
\<close>

theorem Root_twice:
  assumes "Root t = Some (Inr v, t1)"
  shows "(\<forall>r t2. Root t1 = Some (r, t2) \<longrightarrow>
            (r = Inr v \<or> (\<exists>e. r = Inl e)) \<and>
            t2 = t1\<lparr>storage := storage t2\<rparr> \<and>
            nodes (storage t2) = nodes (storage t1) \<and>
            root_slot (storage t2) = root_slot (storage t1) \<and>
            (\<exists>ops. trace (storage t2) = trace (storage t1) @ ops \<and>
                   list_all (isReput (nodes (storage t1))) ops)) \<and>
         (reliable (storage t1) \<longrightarrow> (\<exists>t2. Root t1 = Some (Inr v, t2)))"
  using assms
proof (cases rule: Root_ok)
  case Empty
  then have "Root t1 = Some (Inr v, t1)" by (simp add: Root_def)
  then show ?thesis by simp
next
  case (Tree rk t0 root t2)
  have sf: "same_frame t0 t2" using updateValueIfDirty_frame [OF Tree(5)] by simp
  note p02 = same_frame_params [OF sf]
  note p0 = same_frame_params [OF Tree(3)]
  have po: "pass_ok t0 rk (Inr root, t2)" using Tree(5) by (rule updateValueIfDirty_pass)
  have ev: "evalNode (hash t1) (height t1) (dirtyNodes t0) (nodes (storage t0))
              (\<lambda>k n. nodes (storage t1) k = Some n) rk root"
    using po p02 Tree(7) by (simp add: pass_ok_def)
  have R1: "Root t1 =
      Option.bind (updateValueIfDirty t1 rk)
        (\<lambda>(r, t3). case r of Inl e \<Rightarrow> Some (Inl e, t3)
                    | Inr root' \<Rightarrow> Some (Inr (Node_Hash root' (path rk None) (hash t3)), t3\<lparr>dirtyNodes := []\<rparr>))"
    using Tree(1,2) by (simp add: Root_def)
  have pn: "path rk None = rk" by (simp add: path_def)
  have d1: "dirtyNodes t1 = []" using Tree(7) by simp
  have h1: "hash t1 = hash t" using Tree(7) p02 p0 by simp
  show ?thesis
  proof (intro conjI allI impI)
    fix r t3' assume r: "Root t1 = Some (r, t3')"
    then obtain r3 t3 where u: "updateValueIfDirty t1 rk = Some (r3, t3)"
      and rest: "(case r3 of Inl e \<Rightarrow> Some (Inl e, t3)
                    | Inr root' \<Rightarrow> Some (Inr (Node_Hash root' (path rk None) (hash t3)), t3\<lparr>dirtyNodes := []\<rparr>))
                 = Some (r, t3')"
      unfolding R1 by (auto split: Option.bind_splits)
    have "pass2 t1 rk (r3, t3)" using u by (rule updateValueIfDirty_pass2)
    then have q: "quiet t1 t3" and same: "\<forall>n2. r3 = Inr n2 \<longrightarrow> n2 = root"
      using d1 ev unfolding pass2_def by fastforce+
    note p3 = quiet_params [OF q]
    have t3': "t3' = t3 \<or> t3' = t3\<lparr>dirtyNodes := []\<rparr>" and
      rr: "r = Inr v \<or> (\<exists>e. r = Inl e)"
      using rest same Tree(6) p3 h1 pn by (cases r3; auto)+
    have sf3: "same_frame t1 t3" using q by (simp add: quiet_def)
    have eq3: "t3\<lparr>dirtyNodes := []\<rparr> = t3"
      using sf3 d1 by (cases t1, cases t3) (simp add: same_frame_def)
    have t3e: "t3' = t3" using t3' eq3 by auto
    show "r = Inr v \<or> (\<exists>e. r = Inl e)" by (rule rr)
    show "t3' = t1\<lparr>storage := storage t3'\<rparr>"
      using sf3 t3e by (simp add: same_frame_def)
    show "nodes (storage t3') = nodes (storage t1)" using q t3e by (simp add: quiet_def)
    show "root_slot (storage t3') = root_slot (storage t1)" using q t3e by (simp add: quiet_def)
    show "\<exists>ops. trace (storage t3') = trace (storage t1) @ ops \<and>
                 list_all (isReput (nodes (storage t1))) ops"
      using q t3e by (simp add: quiet_def)
  next
    assume rel: "reliable (storage t1)"
    have c: "nodes (storage t1) = nodes (storage t1) \<and> reliable (storage t1) \<and>
             dirtyNodes t1 = [] \<and> hash t1 = hash t1 \<and> height t1 = height t1"
      using rel d1 by simp
    from second_pass_returns [OF ev, rule_format, OF c]
    obtain t3 where u: "updateValueIfDirty t1 rk = Some (Inr root, t3)" and q: "quiet t1 t3"
      by blast
    note p3 = quiet_params [OF q]
    show "\<exists>t2. Root t1 = Some (Inr v, t2)"
      unfolding R1 using u Tree(6) p3 h1 pn by simp
  qed
qed

theorem Root_twice_witness:
  "(\<exists>t2. Root halfTrieRooted = Some (Inr 446, t2) \<and>
         nodes (storage t2) = nodes (storage halfTrieRooted) \<and>
         root_slot (storage t2) = root_slot (storage halfTrieRooted)) \<and>
   (\<exists>v t1 t2. Root branchTrie = Some (Inr v, t1) \<and> Root t1 = Some (Inr v, t2) \<and>
         nodes (storage t2) = nodes (storage t1) \<and>
         trace (storage t2) = trace (storage t1) @ [OpGet []])"
proof -
  have r: "reliable (storage halfTrieRooted)"
    by (simp add: halfTrieRooted_def reliable_def)
  have A: "\<exists>t2. Root halfTrieRooted = Some (Inr 446, t2) \<and>
         nodes (storage t2) = nodes (storage halfTrieRooted) \<and>
         root_slot (storage t2) = root_slot (storage halfTrieRooted)"
    using Root_twice [OF Root_halfTrie] r by blast
  have c: "case Root branchTrie of
             Some (Inr v, t1) \<Rightarrow>
               (case Root t1 of
                  Some (Inr v', t2) \<Rightarrow> trace (storage t2) = trace (storage t1) @ [OpGet []]
                | _ \<Rightarrow> False)
           | _ \<Rightarrow> False"
    by code_simp
  from case_ok_obtain [OF c] obtain v t1 where f: "Root branchTrie = Some (Inr v, t1)"
    and c2: "case Root t1 of
                  Some (Inr v', t2) \<Rightarrow> trace (storage t2) = trace (storage t1) @ [OpGet []]
                | _ \<Rightarrow> False"
    by blast
  from case_ok_obtain [OF c2] obtain v' t2 where s: "Root t1 = Some (Inr v', t2)"
    and tr: "trace (storage t2) = trace (storage t1) @ [OpGet []]"
    by blast
  have B: "\<exists>v t1 t2. Root branchTrie = Some (Inr v, t1) \<and> Root t1 = Some (Inr v, t2) \<and>
         nodes (storage t2) = nodes (storage t1) \<and>
         trace (storage t2) = trace (storage t1) @ [OpGet []]"
  proof -
    from Root_twice [OF f] s have "v' = v" "nodes (storage t2) = nodes (storage t1)"
      by auto
    then show ?thesis using f s tr by blast
  qed
  show ?thesis using A B by blast
qed

end
